theory Spec2Isabelle
  imports Main
begin

section \<open>The caching parser (src/parser/ParserWithCaching.ts)\<close>

subsection \<open>Tokens, errors and results\<close>

text \<open>
  A chevrotain token, reduced to the two fields the hashing code reads:
  \<open>token.tokenType.tokenName\<close> and \<open>token.image\<close>.
\<close>

record token =
  tokenName :: string
  image :: string

text \<open>Every \<open>throw\<close> of the two source files is a value of this type.\<close>

datatype error =
  UnexpectedParseError
  | MatrixNotProperlyConstructed
  | IllegalOperation
  | MatrixInRange

text \<open>The object \<open>{ addresses, hash }\<close> both hashing functions return.\<close>

record hashAndAddresses =
  addresses :: "string list"
  hash :: string

definition quote :: char where
  "quote = CHR 0x27"

definition backslash :: char where
  "backslash = CHR 0x5C"

subsection \<open>Token-driven hashing: \<open>computeHashAndExtractAddresses\<close>\<close>

text \<open>
  The \<open>while (idx < tokens.length)\<close> loop, as a recursion on the tokens from \<open>idx\<close> on.
  \<open>tokens[idx+1] && tokens[idx+2]\<close> holds exactly when two more tokens exist; the range
  branch advances by three tokens, every other branch by one.
\<close>

fun hashTokens :: "token list \<Rightarrow> string list \<Rightarrow> string \<Rightarrow> hashAndAddresses" where
  "hashTokens [] as h = \<lparr>addresses = as, hash = h\<rparr>"
| "hashTokens (t # ts) as h =
    (if tokenName t = ''RelativeCell'' then
       (case ts of
          t1 # t2 # ts' \<Rightarrow>
            if tokenName t1 = ''RangeSeparator'' \<and> tokenName t2 = ''RelativeCell''
            then hashTokens ts' (as @ [image t @ '':'' @ image t2]) (h @ ''#'')
            else hashTokens ts (as @ [image t]) (h @ ''#'')
        | _ \<Rightarrow> hashTokens ts (as @ [image t]) (h @ ''#''))
     else hashTokens ts as (h @ image t))"

declare hashTokens.simps(2) [simp del]

definition computeHashAndExtractAddresses :: "token list \<Rightarrow> hashAndAddresses" where
  "computeHashAndExtractAddresses tokens = hashTokens tokens [] []"

subsection \<open>The two regular expressions\<close>

text \<open>
  \<open>stringRegex = /^[^']*'/\<close>: the text up to and including the first quote, or no match
  when there is no quote.
\<close>

definition matchStringRegex :: "string \<Rightarrow> string option" where
  "matchStringRegex s =
     (if quote \<in> set s then Some (takeWhile (\<lambda>c. c \<noteq> quote) s @ [quote]) else None)"

text \<open>The classes \<open>[A-Za-z]\<close> and \<open>[0-9]\<close>, by character code.\<close>

definition isLetter :: "char \<Rightarrow> bool" where
  "isLetter c =
     (let n = (of_char c :: nat) in (65 \<le> n \<and> n \<le> 90) \<or> (97 \<le> n \<and> n \<le> 122))"

definition isDigit :: "char \<Rightarrow> bool" where
  "isDigit c = (let n = (of_char c :: nat) in 48 \<le> n \<and> n \<le> 57)"

text \<open>
  \<open>[A-Za-z]+[0-9]+\<close> at the start of a text: both runs are greedy and a shorter letter
  run can never be followed by a digit, so the match is the longest letter run followed
  by the longest digit run, both non-empty.
\<close>

definition matchCellPart :: "string \<Rightarrow> string option" where
  "matchCellPart s =
     (let letters = takeWhile isLetter s;
          digits = takeWhile isDigit (dropWhile isLetter s)
      in if letters = [] \<or> digits = [] then None else Some (letters @ digits))"

text \<open>
  \<open>cellRegex = /^[A-Za-z]+[0-9]+(:[A-Za-z]+[0-9]+)?/\<close>: a cell, then the optional group
  when a colon and a second cell follow.
\<close>

definition matchCellRegex :: "string \<Rightarrow> string option" where
  "matchCellRegex s =
     (case matchCellPart s of
        None \<Rightarrow> None
      | Some c1 \<Rightarrow>
          (case drop (length c1) s of
             c # rest \<Rightarrow>
               if c = CHR '':'' then
                 (case matchCellPart rest of
                    Some c2 \<Rightarrow> Some (c1 @ [c] @ c2)
                  | None \<Rightarrow> Some c1)
               else Some c1
           | [] \<Rightarrow> Some c1))"

subsection \<open>Lexer-free hashing: \<open>computeHashAndExtractAddressesFromLexer\<close>\<close>

text \<open>
  The inner \<open>do ... while (code[x - 2] === "\\")\<close> loop, entered with \<open>x\<close> just after an
  opening quote. Each round matches \<open>stringRegex\<close> on \<open>code.slice(x)\<close>, appends the match
  to the hash and advances \<open>x\<close> past it; no match throws. The loop goes round again when
  the character before the quote just consumed is a backslash (\<open>code[x - 2]\<close> out of
  range is \<open>undefined\<close>, which is not a backslash). It returns the new \<open>x\<close> and hash.
\<close>

function scanString :: "string \<Rightarrow> nat \<Rightarrow> string \<Rightarrow> error + (nat \<times> string)" where
  "scanString code x h =
     (case matchStringRegex (drop x code) of
        None \<Rightarrow> Inl UnexpectedParseError
      | Some r \<Rightarrow>
          (let h' = h @ r; x' = x + length r
           in if 2 \<le> x' \<and> x' - 2 < length code \<and> code ! (x' - 2) = backslash
              then scanString code x' h'
              else Inr (x', h')))"
  by pat_completeness auto

lemma length_takeWhile_quote:
  "quote \<in> set s \<Longrightarrow> length (takeWhile (\<lambda>c. c \<noteq> quote) s) < length s"
  by (induction s) auto

lemma matchStringRegex_bounds:
  assumes "matchStringRegex (drop x code) = Some r"
  shows "0 < length r" and "x + length r \<le> length code"
proof -
  from assms have q: "quote \<in> set (drop x code)"
    and r: "r = takeWhile (\<lambda>c. c \<noteq> quote) (drop x code) @ [quote]"
    by (auto simp: matchStringRegex_def split: if_splits)
  show "0 < length r" using r by simp
  from length_takeWhile_quote[OF q] have "length r \<le> length (drop x code)"
    using r by simp
  moreover from q have "x < length code" by (cases "x < length code") auto
  ultimately show "x + length r \<le> length code" by simp
qed

termination scanString
proof (relation "measure (\<lambda>(code, x, h). length code - x)", goal_cases)
  case 1
  show ?case by simp
next
  case (2 code x h r h' x')
  have "0 < length r" and "x + length r \<le> length code"
    by (rule matchStringRegex_bounds[OF 2(1)])+
  with 2(3) show ?case by (simp del: length_greater_0_conv)
qed

text \<open>
  The outer \<open>while (x < code.length)\<close> loop. At a quote the quote goes into the hash and
  the inner loop takes over; elsewhere a \<open>cellRegex\<close> match on \<open>code.slice(x)\<close> becomes an
  address and a \<open>#\<close>, and any other character is copied.
\<close>

function scanCode :: "string \<Rightarrow> nat \<Rightarrow> string list \<Rightarrow> string \<Rightarrow> error + hashAndAddresses" where
  "scanCode code x as h =
     (if x < length code then
        (if code ! x = quote then
           (case scanString code (x + 1) (h @ [code ! x]) of
              Inl e \<Rightarrow> Inl e
            | Inr (x', h') \<Rightarrow> scanCode code x' as h')
         else
           (case matchCellRegex (drop x code) of
              Some r \<Rightarrow> scanCode code (x + length r) (as @ [r]) (h @ ''#'')
            | None \<Rightarrow> scanCode code (x + 1) as (h @ [code ! x])))
      else Inr \<lparr>addresses = as, hash = h\<rparr>)"
  by pat_completeness auto

lemma scanString_advances:
  "scanString code x h = Inr (x', h') \<Longrightarrow> x < x' \<and> x' \<le> length code"
proof (induction code x h rule: scanString.induct)
  case (1 code x h)
  from "1.prems" obtain r where r: "matchStringRegex (drop x code) = Some r"
    by (subst (asm) scanString.simps) (auto split: option.splits)
  have b: "0 < length r" "x + length r \<le> length code"
    by (rule matchStringRegex_bounds[OF r])+
  show ?case
  proof (cases "2 \<le> x + length r \<and> x + length r - 2 < length code
      \<and> code ! (x + length r - 2) = backslash")
    case True
    with "1.prems" r have "scanString code (x + length r) (h @ r) = Inr (x', h')"
      by (subst (asm) scanString.simps) (simp add: Let_def)
    from "1.IH"[OF r refl refl True this] b show ?thesis by simp
  next
    case False
    with "1.prems" r have "x' = x + length r"
      by (subst (asm) scanString.simps) (auto simp add: Let_def)
    with b show ?thesis by simp
  qed
qed

lemma matchCellPart_nonempty: "matchCellPart s = Some r \<Longrightarrow> r \<noteq> []"
  by (auto simp: matchCellPart_def Let_def split: if_splits)

lemma matchCellRegex_nonempty: "matchCellRegex s = Some r \<Longrightarrow> 0 < length r"
  by (auto simp: matchCellRegex_def split: option.splits list.splits if_splits
      dest: matchCellPart_nonempty)

termination scanCode
proof (relation "measure (\<lambda>(code, x, as, h). length code - x)", goal_cases)
  case 1
  show ?case by simp
next
  case (2 code x as h y x' h')
  then show ?case
    using scanString_advances[of code "x + 1" "h @ [code ! x]" x' h'] by auto
next
  case (3 code x as h)
  then show ?case by simp
next
  case (4 code x as h r)
  then show ?case
    using matchCellRegex_nonempty[of "drop x code" r] by (simp del: length_greater_0_conv)
qed

declare scanString.simps [simp del] scanCode.simps [simp del]

definition computeHashAndExtractAddressesFromLexer :: "string \<Rightarrow> error + hashAndAddresses" where
  "computeHashAndExtractAddressesFromLexer code = scanCode code 0 [] []"

subsection \<open>The class \<open>ParserWithCaching\<close>\<close>

text \<open>
  The fields of the class: the cache from hash to template AST, the hit counter and the
  optimization mode. The type of ASTs is a parameter.
\<close>

record 'ast parserWithCaching =
  cache :: "string \<rightharpoonup> 'ast"
  statsCacheUsed :: nat
  optimizationMode :: string

text \<open>
  \<open>FormulaParser.ts\<close> is not among the sources. Its three functions that \<open>parse\<close> calls are
  taken as parameters: they return values (a failure of the lexer or of the grammar is an
  AST, an error node), and \<open>tokenizeFormula\<close> is reduced to the \<open>tokens\<close> of its result.
\<close>

record 'ast formulaParser =
  parseFormula :: "string \<Rightarrow> 'ast"
  tokenizeFormula :: "string \<Rightarrow> token list"
  parseFromTokens :: "token list \<Rightarrow> 'ast"

text \<open>The object \<open>{ ast, addresses }\<close> that \<open>parse\<close> returns.\<close>

record 'ast parsed =
  ast :: 'ast
  parsedAddresses :: "string list"

text \<open>
  \<open>parse(text)\<close>: the result and the parser afterwards, or the error thrown. A stored AST
  is an object, so \<open>if (cachedAst)\<close> holds exactly when the key is present. The only
  \<open>throw\<close> is the one of the lexer-free hashing, before the parser is touched.
\<close>

definition parse ::
  "'ast formulaParser \<Rightarrow> 'ast parserWithCaching \<Rightarrow> string
     \<Rightarrow> error + ('ast parsed \<times> 'ast parserWithCaching)" where
  "parse fp p text =
     (if optimizationMode p = ''lexer'' then
        (case computeHashAndExtractAddressesFromLexer text of
           Inl e \<Rightarrow> Inl e
         | Inr ha \<Rightarrow>
             (case cache p (hash ha) of
                Some cachedAst \<Rightarrow>
                  Inr (\<lparr>ast = cachedAst, parsedAddresses = addresses ha\<rparr>,
                       p\<lparr>statsCacheUsed := statsCacheUsed p + 1\<rparr>)
              | None \<Rightarrow>
                  (let a = parseFormula fp text
                   in Inr (\<lparr>ast = a, parsedAddresses = addresses ha\<rparr>,
                           p\<lparr>cache := (cache p)(hash ha \<mapsto> a)\<rparr>))))
      else
        (let lexerResult = tokenizeFormula fp text;
             ha = computeHashAndExtractAddresses lexerResult
         in (case cache p (hash ha) of
               Some cachedAst \<Rightarrow>
                 Inr (\<lparr>ast = cachedAst, parsedAddresses = addresses ha\<rparr>,
                      p\<lparr>statsCacheUsed := statsCacheUsed p + 1\<rparr>)
             | None \<Rightarrow>
                 (let a = parseFromTokens fp lexerResult
                  in Inr (\<lparr>ast = a, parsedAddresses = addresses ha\<rparr>,
                          p\<lparr>cache := (cache p)(hash ha \<mapsto> a)\<rparr>)))))"

text \<open>
  The template hash \<open>parse\<close> computes for a text in a given mode (its first step in either
  branch), named so that statements about \<open>parse\<close> can speak of it.
\<close>

definition templateHash :: "'ast formulaParser \<Rightarrow> string \<Rightarrow> string \<Rightarrow> error + hashAndAddresses" where
  "templateHash fp mode text =
     (if mode = ''lexer'' then computeHashAndExtractAddressesFromLexer text
      else Inr (computeHashAndExtractAddresses (tokenizeFormula fp text)))"

text \<open>\<open>isFormula(text)\<close> is \<open>text.startsWith('=')\<close>.\<close>

definition isFormula :: "string \<Rightarrow> bool" where
  "isFormula text = (case text of c # _ \<Rightarrow> c = CHR ''='' | [] \<Rightarrow> False)"

subsection \<open>Vocabulary for the statements about hashing\<close>

text \<open>
  The content of a quoted string as the inner loop reads it, given the character before
  it: every quote inside the content follows a backslash, and the content does not end
  in a backslash, so the quote after it is the first one the loop stops at.
\<close>

fun stringContent :: "char \<Rightarrow> string \<Rightarrow> bool" where
  "stringContent prev [] = (prev \<noteq> backslash)"
| "stringContent prev (c # cs) = ((c = quote \<longrightarrow> prev = backslash) \<and> stringContent c cs)"

text \<open>The text a token stream spells when the lexer skipped nothing.\<close>

definition textOf :: "token list \<Rightarrow> string" where
  "textOf ts = concat (map image ts)"

text \<open>
  An image that holds no quote and in which no \<open>cellRegex\<close> match starts, \<open>rest\<close> being
  the text that follows it.
\<close>

fun copiedVerbatim :: "string \<Rightarrow> string \<Rightarrow> bool" where
  "copiedVerbatim [] rest = True"
| "copiedVerbatim (c # cs) rest =
     (c \<noteq> quote \<and> matchCellRegex (c # cs @ rest) = None \<and> copiedVerbatim cs rest)"

text \<open>An image that is one complete quoted string.\<close>

definition isStringLiteral :: "string \<Rightarrow> bool" where
  "isStringLiteral img =
     (case img of
        [] \<Rightarrow> False
      | c # cs \<Rightarrow> c = quote \<and> cs \<noteq> [] \<and> last cs = quote \<and> stringContent quote (butlast cs))"

text \<open>
  A token stream whose boundaries are those the lexer-free scan finds in its text: a
  relative cell, or a relative range with \<open>:\<close> as its separator, is exactly what
  \<open>cellRegex\<close> matches where it starts, and every other token is a complete quoted string
  or is free of quotes and of \<open>cellRegex\<close> matches. The case distinction is the one of
  \<open>hashTokens\<close>.
\<close>

fun lexerAligned :: "token list \<Rightarrow> bool" where
  "lexerAligned [] = True"
| "lexerAligned (t # ts) =
    (if tokenName t = ''RelativeCell'' then
       (case ts of
          t1 # t2 # ts' \<Rightarrow>
            if tokenName t1 = ''RangeSeparator'' \<and> tokenName t2 = ''RelativeCell''
            then image t1 = '':''
              \<and> matchCellRegex (textOf (t # ts)) = Some (image t @ '':'' @ image t2)
              \<and> lexerAligned ts'
            else matchCellRegex (textOf (t # ts)) = Some (image t) \<and> lexerAligned ts
        | _ \<Rightarrow> matchCellRegex (textOf (t # ts)) = Some (image t) \<and> lexerAligned ts)
     else (isStringLiteral (image t) \<or> copiedVerbatim (image t) (textOf ts)) \<and> lexerAligned ts)"

declare lexerAligned.simps(2) [simp del]

text \<open>
  Two token streams that differ only in their relative-cell operands: the same token
  names in the same order, and the same image wherever the token is not a relative cell.
\<close>

definition differOnlyInRelativeCells :: "token list \<Rightarrow> token list \<Rightarrow> bool" where
  "differOnlyInRelativeCells ts1 ts2 =
     list_all2 (\<lambda>a b. tokenName a = tokenName b
        \<and> (tokenName a = ''RelativeCell'' \<or> image a = image b)) ts1 ts2"

text \<open>Whether the tokens after a relative cell make it the start of a relative range.\<close>

definition startsRange :: "token list \<Rightarrow> bool" where
  "startsRange ts =
     (case ts of
        t1 # t2 # _ \<Rightarrow> tokenName t1 = ''RangeSeparator'' \<and> tokenName t2 = ''RelativeCell''
      | _ \<Rightarrow> False)"

text \<open>
  The tokenizer, \<open>tokenizeFormula\<close> of \<open>FormulaParser.ts\<close>, is not among the sources. What the
  token-driven mode needs of its token stream in order to be compared with the lexer-free
  mode is written as a grammar of the stream, on characters alone and without either
  regular expression of the lexer-free mode.

  The Latin letters and the decimal digits, listed.
\<close>

definition latinLetter :: "char \<Rightarrow> bool" where
  "latinLetter c = (c \<in> set ''ABCDEFGHIJKLMNOPQRSTUVWXYZabcdefghijklmnopqrstuvwxyz'')"

definition decimalDigit :: "char \<Rightarrow> bool" where
  "decimalDigit c = (c \<in> set ''0123456789'')"

text \<open>A cell name in A1 notation: one or more letters, then one or more digits, nothing else.\<close>

definition cellName :: "string \<Rightarrow> bool" where
  "cellName s =
     (let ls = takeWhile latinLetter s; ds = dropWhile latinLetter s
      in ls \<noteq> [] \<and> ds \<noteq> [] \<and> list_all decimalDigit ds)"

text \<open>
  A text that begins with a digit; one that begins with letters followed by a digit, so
  that a cell name begins where it begins; and one that begins with a colon followed by
  such a text.
\<close>

definition digitStarts :: "string \<Rightarrow> bool" where
  "digitStarts s = (case s of d # _ \<Rightarrow> decimalDigit d | [] \<Rightarrow> False)"

definition cellNameStarts :: "string \<Rightarrow> bool" where
  "cellNameStarts s = (takeWhile latinLetter s \<noteq> [] \<and> digitStarts (dropWhile latinLetter s))"

definition rangeTailStarts :: "string \<Rightarrow> bool" where
  "rangeTailStarts s = (case s of c # r \<Rightarrow> c = CHR '':'' \<and> cellNameStarts r | [] \<Rightarrow> False)"

text \<open>
  An image without a quote inside which no cell name begins, \<open>rest\<close> being the text that
  follows it: \<open>SUM\<close> before \<open>(\<close> is one, \<open>LOG10\<close> is not, and neither is \<open>SUM\<close> before \<open>A1\<close>.
\<close>

fun plainImage :: "string \<Rightarrow> string \<Rightarrow> bool" where
  "plainImage [] rest = True"
| "plainImage (c # cs) rest =
     (c \<noteq> quote \<and> \<not> cellNameStarts (c # cs @ rest) \<and> plainImage cs rest)"

text \<open>
  A token stream in which the relative cells are exactly the cell names of the text it
  spells, outside the quoted strings. A token named \<open>RelativeCell\<close> is a cell name, and
  the name ends where the token ends: no digit follows it. A relative range is a relative
  cell, a range separator whose image is a colon, and a relative cell; a relative cell
  that does not begin a range is not followed by a colon and the beginning of a cell
  name. Every other token is a complete quoted string, or has no quote and no cell name
  beginning inside it. The case distinction is the one of \<open>hashTokens\<close>.
\<close>

fun wellLexed :: "token list \<Rightarrow> bool" where
  "wellLexed [] = True"
| "wellLexed (t # ts) =
    (if tokenName t = ''RelativeCell'' then
       (case ts of
          t1 # t2 # ts' \<Rightarrow>
            if tokenName t1 = ''RangeSeparator'' \<and> tokenName t2 = ''RelativeCell''
            then cellName (image t) \<and> image t1 = '':'' \<and> cellName (image t2)
              \<and> \<not> digitStarts (textOf ts') \<and> wellLexed ts'
            else cellName (image t) \<and> \<not> digitStarts (textOf ts)
              \<and> \<not> rangeTailStarts (textOf ts) \<and> wellLexed ts
        | _ \<Rightarrow> cellName (image t) \<and> \<not> digitStarts (textOf ts)
              \<and> \<not> rangeTailStarts (textOf ts) \<and> wellLexed ts)
     else (isStringLiteral (image t) \<or> plainImage (image t) (textOf ts)) \<and> wellLexed ts)"

declare wellLexed.simps(2) [simp del]





section \<open>The engine (src/HandsOnEngine.ts)\<close>

subsection \<open>Data\<close>

record simpleCellAddress =
  sheet :: nat
  col :: nat
  row :: nat

text \<open>
  \<open>AbsoluteCellRange\<close>, \<open>RowsSpan\<close> and \<open>ColumnsSpan\<close> are not among the sources. A value
  of these types is kept as the constructor call that makes it:
  \<open>AbsoluteCellRange.spanFrom(corner, width, height)\<close>,
  \<open>RowsSpan.fromNumberOfRows(sheet, row, n)\<close>, \<open>new RowsSpan(sheet, rowStart, rowEnd)\<close>,
  and the same for columns.
\<close>

datatype absoluteCellRange = SpanFrom simpleCellAddress nat nat

datatype rowsSpan = RowsSpanFromNumberOfRows nat nat nat | RowsSpan nat nat nat

datatype columnsSpan = ColumnsSpanFromNumberOfColumns nat nat nat | ColumnsSpan nat nat nat

text \<open>
  The vertex classes \<open>getCell\<close> can answer with, each with an identity; a matrix vertex
  also carries the answer of its \<open>isFormula()\<close>. No vertex (\<open>null\<close>) is \<open>None\<close>.
\<close>

datatype vertex =
  FormulaCellVertex nat
  | ValueCellVertex nat
  | EmptyCellVertex
  | MatrixVertex nat bool

fun instanceofMatrixVertex :: "vertex option \<Rightarrow> bool" where
  "instanceofMatrixVertex (Some (MatrixVertex _ _)) = True"
| "instanceofMatrixVertex _ = False"

fun instanceofFormulaCellVertex :: "vertex option \<Rightarrow> bool" where
  "instanceofFormulaCellVertex (Some (FormulaCellVertex _)) = True"
| "instanceofFormulaCellVertex _ = False"

fun instanceofValueCellVertex :: "vertex option \<Rightarrow> bool" where
  "instanceofValueCellVertex (Some (ValueCellVertex _)) = True"
| "instanceofValueCellVertex _ = False"

fun instanceofEmptyCellVertex :: "vertex option \<Rightarrow> bool" where
  "instanceofEmptyCellVertex (Some EmptyCellVertex) = True"
| "instanceofEmptyCellVertex _ = False"

fun matrixVertexIsFormula :: "vertex option \<Rightarrow> bool" where
  "matrixVertexIsFormula (Some (MatrixVertex _ f)) = f"
| "matrixVertexIsFormula _ = False"

text \<open>The value domain of a cell; the type of numbers is a parameter.\<close>

datatype 'n cellValue =
  NumberValue 'n
  | StringValue string
  | BooleanValue bool
  | ErrorValue string

text \<open>
  What the engine reads of the result of \<open>this.parser.parse(text, address)\<close> (the \<open>hash\<close>
  it also destructures is never used).
\<close>

record ('a, 'r) parsingResult =
  resultAst :: 'a
  dependencies :: 'r
  hasVolatileFunction :: bool
  hasStructuralChangeFunction :: bool

text \<open>The call \<open>absolutizeDependencies(dependencies, address)\<close>, kept unevaluated.\<close>

datatype 'r absolutized = AbsolutizeDependencies 'r simpleCellAddress

text \<open>
  The calls the engine makes on its collaborators (the dependency graph, a matrix vertex,
  the column index, the dependency transformers, the lazy transform service, the parser
  and the evaluator), none of which is among the sources. Each constructor is one method,
  with the arguments of the call.
\<close>

datatype ('n, 'a, 'r) effect =
  ParserParse string simpleCellAddress
  | SetMatrixCellValue vertex simpleCellAddress 'n
  | AddNewMatrixVertex vertex
  | ProcessCellDependencies "'r absolutized" vertex
  | SetFormulaToCell simpleCellAddress 'a "'r absolutized" bool bool
  | SetCellEmpty simpleCellAddress
  | SetValueToCell simpleCellAddress "'n cellValue"
  | ColumnIndexRemove "'n cellValue" simpleCellAddress
  | ColumnIndexChange "'n cellValue" "'n cellValue" simpleCellAddress
  | ColumnIndexAddColumns columnsSpan
  | ColumnIndexRemoveColumns columnsSpan
  | GraphAddRows rowsSpan
  | GraphRemoveRows rowsSpan
  | GraphAddColumns columnsSpan
  | GraphRemoveColumns columnsSpan
  | GraphMoveCells absoluteCellRange int int nat
  | AddRowsTransform rowsSpan
  | RemoveRowsTransform rowsSpan
  | AddColumnsTransform columnsSpan
  | RemoveColumnsTransform columnsSpan
  | MoveCellsTransform absoluteCellRange int int nat
  | AddAddRowsTransformation rowsSpan
  | AddRemoveRowsTransformation rowsSpan
  | AddAddColumnsTransformation columnsSpan
  | AddRemoveColumnsTransformation columnsSpan
  | AddMoveCellsTransformation absoluteCellRange int int nat
  | ClearRecentlyChangedVertices
  | PartialRun "vertex list"

text \<open>
  What the collaborators answer, and JavaScript's \<open>Number\<close>, as parameters of the model:
  \<^item> \<open>getCell\<close>, \<open>getCellValue\<close>: the graph's answers in the state the operation starts in
    (the engine asks before it changes anything);
  \<^item> \<open>matrixInRange\<close>: whether \<open>ensureNoMatrixInRange(range)\<close> throws;
  \<^item> \<open>parserParse\<close>, \<open>buildMatrixVertex\<close>: the results of these calls, the size of
    \<open>buildMatrixVertex\<close> being \<open>None\<close> for \<open>false\<close>;
  \<^item> \<open>jsNumber\<close>: \<open>Number(text)\<close>, with \<open>None\<close> for \<open>NaN\<close>;
  \<^item> \<open>verticesToRecompute\<close>: the vertices \<open>verticesToRecompute()\<close> yields for a given
    recently-changed set;
  \<^item> \<open>marks\<close>: how a call changes the recently-changed set of the graph.
\<close>

record ('n, 'a, 'r) collaborators =
  getCell :: "simpleCellAddress \<Rightarrow> vertex option"
  getCellValue :: "simpleCellAddress \<Rightarrow> 'n cellValue"
  matrixInRange :: "absoluteCellRange \<Rightarrow> bool"
  parserParse :: "string \<Rightarrow> simpleCellAddress \<Rightarrow> ('a, 'r) parsingResult"
  buildMatrixVertex :: "'a \<Rightarrow> simpleCellAddress \<Rightarrow> vertex \<times> (nat \<times> nat) option"
  jsNumber :: "string \<Rightarrow> 'n option"
  verticesToRecompute :: "vertex list \<Rightarrow> vertex list"
  marks :: "('n, 'a, 'r) effect \<Rightarrow> vertex list \<Rightarrow> vertex list"

text \<open>
  The state of the engine, as far as the sources determine it: the recently-changed
  (dirty) set of the dependency graph, and the calls made on the collaborators so far,
  oldest first.
\<close>

record ('n, 'a, 'r) engine =
  recentlyChanged :: "vertex list"
  calls :: "('n, 'a, 'r) effect list"

text \<open>A call on a collaborator: it is recorded, and it may mark vertices.\<close>

definition call ::
  "('n, 'a, 'r) collaborators \<Rightarrow> ('n, 'a, 'r) effect \<Rightarrow> ('n, 'a, 'r) engine \<Rightarrow> ('n, 'a, 'r) engine" where
  "call env eff e = e\<lparr>recentlyChanged := marks env eff (recentlyChanged e), calls := calls e @ [eff]\<rparr>"

text \<open>
  Modelled from the spec: \<open>clearRecentlyChangedVertices\<close> of the dependency graph, which
  is not among the sources, resets the dirty set.
\<close>

definition clearRecentlyChangedVertices :: "('n, 'a, 'r) engine \<Rightarrow> ('n, 'a, 'r) engine" where
  "clearRecentlyChangedVertices e =
     e\<lparr>recentlyChanged := [], calls := calls e @ [ClearRecentlyChangedVertices]\<rparr>"

text \<open>
  Modelled from the spec: \<open>partialRun\<close> of the evaluator, which is not among the sources,
  recomputes from the given vertices and writes values back; it marks nothing as changed.
\<close>

definition partialRun :: "vertex list \<Rightarrow> ('n, 'a, 'r) engine \<Rightarrow> ('n, 'a, 'r) engine" where
  "partialRun vs e = e\<lparr>calls := calls e @ [PartialRun vs]\<rparr>"

text \<open>
  The truth value of an array in a JavaScript condition: an array is an object, and every
  object is truthy, the empty array included.
\<close>

definition truthy :: "vertex list \<Rightarrow> bool" where
  "truthy vs = True"

text \<open>
  Modelled from the spec: \<open>isMatrix\<close> (exported by \<open>./parser\<close>, not among the sources)
  recognises a string of the form \<open>{=...}\<close>.
\<close>

definition isMatrix :: "string \<Rightarrow> bool" where
  "isMatrix text = (3 \<le> length text \<and> take 2 text = ''{='' \<and> last text = CHR ''}'')"

text \<open>\<open>s.substr(start, len)\<close>, for a start within the string.\<close>

definition substr :: "string \<Rightarrow> nat \<Rightarrow> nat \<Rightarrow> string" where
  "substr s start len = take len (drop start s)"

subsection \<open>Operations\<close>

definition recomputeIfDependencyGraphNeedsIt ::
  "('n, 'a, 'r) collaborators \<Rightarrow> ('n, 'a, 'r) engine \<Rightarrow> ('n, 'a, 'r) engine" where
  "recomputeIfDependencyGraphNeedsIt env e =
     (let verticesToRecomputeFrom = verticesToRecompute env (recentlyChanged e);
          e1 = clearRecentlyChangedVertices e
      in if truthy verticesToRecomputeFrom then partialRun verticesToRecomputeFrom e1 else e1)"

text \<open>
  \<open>setCellContent(address, newCellContent)\<close>: the error thrown, if any, and the engine when
  the call returns or throws.
\<close>

definition setCellContent ::
  "('n, 'a, 'r) collaborators \<Rightarrow> ('n, 'a, 'r) engine \<Rightarrow> simpleCellAddress \<Rightarrow> string
     \<Rightarrow> error option \<times> ('n, 'a, 'r) engine" where
  "setCellContent env e address newCellContent =
     (let vertex = getCell env address in
      if instanceofMatrixVertex vertex \<and> \<not> matrixVertexIsFormula vertex
         \<and> jsNumber env newCellContent \<noteq> None then
        (let e1 = call env (SetMatrixCellValue (the vertex) address (the (jsNumber env newCellContent))) e;
             verticesToRecomputeFrom = [the vertex]
         in (None, if truthy verticesToRecomputeFrom then partialRun verticesToRecomputeFrom e1 else e1))
      else if \<not> instanceofMatrixVertex vertex \<and> isMatrix newCellContent then
        (let matrixFormula = substr newCellContent 1 (length newCellContent - 2);
             e1 = call env (ParserParse matrixFormula address) e;
             parseResult = parserParse env matrixFormula address;
             (newVertex, size) = buildMatrixVertex env (resultAst parseResult) address
         in if size = None \<or> \<not> instanceofMatrixVertex (Some newVertex) then
              (Some MatrixNotProperlyConstructed, e1)
            else
              (let e2 = call env (AddNewMatrixVertex newVertex) e1;
                   e3 = call env (ProcessCellDependencies
                          (AbsolutizeDependencies (dependencies parseResult) address) newVertex) e2;
                   verticesToRecomputeFrom = [newVertex]
               in (None, if truthy verticesToRecomputeFrom
                         then partialRun verticesToRecomputeFrom e3 else e3)))
      else if instanceofFormulaCellVertex vertex \<or> instanceofValueCellVertex vertex
              \<or> instanceofEmptyCellVertex vertex \<or> vertex = None then
        (let e2 =
           (if isFormula newCellContent then
              (let e1 = call env (ParserParse newCellContent address) e;
                   r = parserParse env newCellContent address
               in call env (SetFormulaToCell address (resultAst r)
                    (AbsolutizeDependencies (dependencies r) address)
                    (hasVolatileFunction r) (hasStructuralChangeFunction r)) e1)
            else if newCellContent = [] then
              (let oldValue = getCellValue env address;
                   e1 = call env (ColumnIndexRemove oldValue address) e
               in call env (SetCellEmpty address) e1)
            else if jsNumber env newCellContent \<noteq> None then
              (let newValue = NumberValue (the (jsNumber env newCellContent));
                   oldValue = getCellValue env address;
                   e1 = call env (SetValueToCell address newValue) e
               in call env (ColumnIndexChange oldValue newValue address) e1)
            else
              (let oldValue = getCellValue env address;
                   e1 = call env (SetValueToCell address (StringValue newCellContent)) e
               in call env (ColumnIndexChange oldValue (StringValue newCellContent) address) e1));
             verticesToRecomputeFrom = verticesToRecompute env (recentlyChanged e2);
             e3 = clearRecentlyChangedVertices e2
         in (None, if truthy verticesToRecomputeFrom
                   then partialRun verticesToRecomputeFrom e3 else e3))
      else (Some IllegalOperation, e))"

text \<open>
  The four row and column operations. \<open>stats.measure\<close> runs its callback; the statistics
  are not modelled. An optional argument left out is \<open>None\<close>, and takes its default.
  The parameters \<open>sheet\<close>, \<open>row\<close> and \<open>col\<close> are written \<open>sheetId\<close>, \<open>rowIndex\<close> and
  \<open>colIndex\<close>, the short names being the fields of an address.
\<close>

definition addRows ::
  "('n, 'a, 'r) collaborators \<Rightarrow> ('n, 'a, 'r) engine \<Rightarrow> nat \<Rightarrow> nat \<Rightarrow> nat option
     \<Rightarrow> ('n, 'a, 'r) engine" where
  "addRows env e sheetId rowIndex numberOfRowsToAdd =
     (let addedRows = RowsSpanFromNumberOfRows sheetId rowIndex
            (case numberOfRowsToAdd of None \<Rightarrow> 1 | Some n \<Rightarrow> n);
          e1 = call env (GraphAddRows addedRows) e;
          e2 = call env (AddRowsTransform addedRows) e1;
          e3 = call env (AddAddRowsTransformation addedRows) e2
      in recomputeIfDependencyGraphNeedsIt env e3)"

definition removeRows ::
  "('n, 'a, 'r) collaborators \<Rightarrow> ('n, 'a, 'r) engine \<Rightarrow> nat \<Rightarrow> nat \<Rightarrow> nat option
     \<Rightarrow> ('n, 'a, 'r) engine" where
  "removeRows env e sheetId rowStart rowEnd =
     (let removedRows = RowsSpan sheetId rowStart
            (case rowEnd of None \<Rightarrow> rowStart | Some n \<Rightarrow> n);
          e1 = call env (GraphRemoveRows removedRows) e;
          e2 = call env (RemoveRowsTransform removedRows) e1;
          e3 = call env (AddRemoveRowsTransformation removedRows) e2
      in recomputeIfDependencyGraphNeedsIt env e3)"

definition addColumns ::
  "('n, 'a, 'r) collaborators \<Rightarrow> ('n, 'a, 'r) engine \<Rightarrow> nat \<Rightarrow> nat \<Rightarrow> nat option
     \<Rightarrow> ('n, 'a, 'r) engine" where
  "addColumns env e sheetId colIndex numberOfCols =
     (let addedColumns = ColumnsSpanFromNumberOfColumns sheetId colIndex
            (case numberOfCols of None \<Rightarrow> 1 | Some n \<Rightarrow> n);
          e1 = call env (GraphAddColumns addedColumns) e;
          e2 = call env (ColumnIndexAddColumns addedColumns) e1;
          e3 = call env (AddColumnsTransform addedColumns) e2;
          e4 = call env (AddAddColumnsTransformation addedColumns) e3
      in recomputeIfDependencyGraphNeedsIt env e4)"

definition removeColumns ::
  "('n, 'a, 'r) collaborators \<Rightarrow> ('n, 'a, 'r) engine \<Rightarrow> nat \<Rightarrow> nat \<Rightarrow> nat option
     \<Rightarrow> ('n, 'a, 'r) engine" where
  "removeColumns env e sheetId columnStart columnEnd =
     (let removedColumns = ColumnsSpan sheetId columnStart
            (case columnEnd of None \<Rightarrow> columnStart | Some n \<Rightarrow> n);
          e1 = call env (GraphRemoveColumns removedColumns) e;
          e2 = call env (ColumnIndexRemoveColumns removedColumns) e1;
          e3 = call env (RemoveColumnsTransform removedColumns) e2;
          e4 = call env (AddRemoveColumnsTransformation removedColumns) e3
      in recomputeIfDependencyGraphNeedsIt env e4)"

text \<open>
  \<open>moveCells\<close>: the error thrown, if any, and the engine when the call returns or throws.
  Modelled from the spec: \<open>ensureNoMatrixInRange\<close> of the dependency graph, which is not
  among the sources, fails when the range overlaps a matrix, and changes nothing.
\<close>

definition moveCells ::
  "('n, 'a, 'r) collaborators \<Rightarrow> ('n, 'a, 'r) engine \<Rightarrow> simpleCellAddress \<Rightarrow> nat \<Rightarrow> nat
     \<Rightarrow> simpleCellAddress \<Rightarrow> error option \<times> ('n, 'a, 'r) engine" where
  "moveCells env e sourceLeftCorner width height destinationLeftCorner =
     (let sourceRange = SpanFrom sourceLeftCorner width height;
          targetRange = SpanFrom destinationLeftCorner width height
      in if matrixInRange env sourceRange then (Some MatrixInRange, e)
         else if matrixInRange env targetRange then (Some MatrixInRange, e)
         else
           (let toRight = int (col destinationLeftCorner) - int (col sourceLeftCorner);
                toBottom = int (row destinationLeftCorner) - int (row sourceLeftCorner);
                toSheet = sheet destinationLeftCorner;
                e1 = call env (MoveCellsTransform sourceRange toRight toBottom toSheet) e;
                e2 = call env (AddMoveCellsTransformation sourceRange toRight toBottom toSheet) e1;
                e3 = call env (GraphMoveCells sourceRange toRight toBottom toSheet) e2
            in (None, recomputeIfDependencyGraphNeedsIt env e3)))"

text \<open>The calls made between two states of the engine.\<close>

definition newCalls :: "('n, 'a, 'r) engine \<Rightarrow> ('n, 'a, 'r) engine \<Rightarrow> ('n, 'a, 'r) effect list" where
  "newCalls e e' = drop (length (calls e)) (calls e')"

text \<open>Whether a call \<open>a\<close> occurs before the first call \<open>b\<close>.\<close>

definition calledBefore :: "'x \<Rightarrow> 'x \<Rightarrow> 'x list \<Rightarrow> bool" where
  "calledBefore a b cs = (a \<in> set (takeWhile (\<lambda>c. c \<noteq> b) cs))"

subsection \<open>Vocabulary for the statements about the engine\<close>

text \<open>The vertices of the ordinary branch of \<open>setCellContent\<close>: a formula, value or empty vertex, or none.\<close>

fun ordinaryOrAbsent :: "vertex option \<Rightarrow> bool" where
  "ordinaryOrAbsent (Some (MatrixVertex _ _)) = False"
| "ordinaryOrAbsent _ = True"

text \<open>A scan result with the addresses and the hash of an earlier part of the text in front.\<close>

definition prepend :: "string list \<Rightarrow> string \<Rightarrow> hashAndAddresses \<Rightarrow> hashAndAddresses" where
  "prepend as h r = \<lparr>addresses = as @ addresses r, hash = h @ hash r\<rparr>"

text \<open>
  The token stream the lexer-free scan itself induces on a text from \<open>x\<close> on: a quoted
  string is one token, a \<open>cellRegex\<close> match is a relative cell or the three tokens of a
  relative range, and any other character is a token of its own. The recursion is the
  one of \<open>scanCode\<close>.
\<close>

function scanTokens :: "string \<Rightarrow> nat \<Rightarrow> token list" where
  "scanTokens code x =
     (if x < length code then
        (if code ! x = quote then
           (case scanString code (x + 1) [code ! x] of
              Inl e \<Rightarrow> []
            | Inr (x', h') \<Rightarrow> \<lparr>tokenName = ''StringLiteral'', image = h'\<rparr> # scanTokens code x')
         else
           (case matchCellRegex (drop x code) of
              Some r \<Rightarrow>
                (case matchCellPart (drop x code) of
                   Some c1 \<Rightarrow>
                     (if length c1 < length r
                      then [\<lparr>tokenName = ''RelativeCell'', image = c1\<rparr>,
                            \<lparr>tokenName = ''RangeSeparator'', image = '':''\<rparr>,
                            \<lparr>tokenName = ''RelativeCell'', image = drop (length c1 + 1) r\<rparr>]
                      else [\<lparr>tokenName = ''RelativeCell'', image = r\<rparr>])
                 | None \<Rightarrow> [\<lparr>tokenName = ''RelativeCell'', image = r\<rparr>])
                @ scanTokens code (x + length r)
            | None \<Rightarrow> \<lparr>tokenName = ''Character'', image = [code ! x]\<rparr> # scanTokens code (x + 1)))
      else [])"
  by pat_completeness auto
termination
proof (relation "measure (\<lambda>(code, x). length code - x)", goal_cases)
  case 1
  show ?case by simp
next
  case (2 code x y x' h')
  then show ?case
    using scanString_advances[of code "x + 1" "[code ! x]" x' h'] by auto
next
  case (3 code x)
  then show ?case by simp
next
  case (4 code x r)
  then show ?case
    using matchCellRegex_nonempty[of "drop x code" r] by (simp del: length_greater_0_conv)
qed

declare scanTokens.simps [simp del]

section \<open>Sample values for the concrete instances\<close>

text \<open>
  A tokenizer that reads \<open>A\<close> and \<open>B\<close> as the relative cells \<open>A1\<close> and \<open>B2\<close> and every other
  character as a token of its own, a parser whose AST of a text is the text itself and
  whose AST of a token stream is its text, or an error node when the stream is empty or
  ends in \<open>+\<close>, and an empty parser in a given mode.
\<close>

definition sampleTokens :: "string \<Rightarrow> token list" where
  "sampleTokens text = map (\<lambda>c. \<lparr>tokenName = (if c = CHR ''A'' \<or> c = CHR ''B'' then ''RelativeCell'' else ''Other''), image = (if c = CHR ''A'' then ''A1'' else if c = CHR ''B'' then ''B2'' else [c])\<rparr>) text"

definition sampleFormulaParser :: "string formulaParser" where
  "sampleFormulaParser =
     \<lparr>parseFormula = (\<lambda>text. text),
      tokenizeFormula = sampleTokens,
      parseFromTokens = (\<lambda>tokens. case rev tokens of
          [] \<Rightarrow> ''Error(parse)''
        | t # _ \<Rightarrow> if image t = ''+'' then ''Error(parse)'' else textOf tokens)\<rparr>"

definition sampleParser :: "string \<Rightarrow> string parserWithCaching" where
  "sampleParser mode = \<lparr>cache = Map.empty, statsCacheUsed = 0, optimizationMode = mode\<rparr>"

text \<open>
  Collaborators of an engine in which a numeric matrix of two by two cells starts at
  column 4 of row 0, every cell holds the string \<open>old\<close>, \<open>42\<close> and the empty string are the
  numeric strings, only \<open>=TRANSPOSE(A1:B2)\<close> builds a matrix vertex, and setting a value or
  a formula marks one vertex; and an engine on which nothing has been called yet.
\<close>

definition sampleCollaborators :: "(int, string, string list) collaborators" where
  "sampleCollaborators =
     \<lparr>getCell = (\<lambda>a. if a = \<lparr>sheet = 0, col = 4, row = 0\<rparr> then Some (MatrixVertex 7 False) else None),
      getCellValue = (\<lambda>a. StringValue ''old''),
      matrixInRange = (\<lambda>r. r = SpanFrom \<lparr>sheet = 0, col = 4, row = 0\<rparr> 2 2),
      parserParse = (\<lambda>text a. \<lparr>resultAst = text, dependencies = [],
         hasVolatileFunction = False, hasStructuralChangeFunction = False\<rparr>),
      buildMatrixVertex = (\<lambda>a addr. if a = ''=TRANSPOSE(A1:B2)'' then (MatrixVertex 9 True, Some (2, 2))
         else (ValueCellVertex 9, None)),
      jsNumber = (\<lambda>s. if s = ''42'' then Some 42 else if s = [] then Some 0 else None),
      verticesToRecompute = (\<lambda>vs. vs),
      marks = (\<lambda>eff vs. case eff of
          SetValueToCell a v \<Rightarrow> vs @ [ValueCellVertex 1]
        | SetFormulaToCell a f d v s \<Rightarrow> vs @ [FormulaCellVertex 2]
        | _ \<Rightarrow> vs)\<rparr>"

definition emptyEngine :: "(int, string, string list) engine" where
  "emptyEngine = \<lparr>recentlyChanged = [], calls = []\<rparr>"

section \<open>Lemmas\<close>

subsection \<open>The lexer-free scan\<close>

lemma scanString_shift:
  "1 \<le> x \<Longrightarrow> scanString (pre @ code) (length pre + x) h = map_sum (\<lambda>e. e) (apfst ((+) (length pre))) (scanString code x h)"
proof (induction code x h rule: scanString.induct)
  case (1 code x h)
  show ?case
  proof (cases "matchStringRegex (drop x code)")
    case None
    then show ?thesis
      by (subst scanString.simps, subst (2) scanString.simps) simp
  next
    case (Some r)
    have b: "0 < length r" "x + length r \<le> length code"
      by (rule matchStringRegex_bounds[OF Some])+
    let ?x' = "x + length r"
    have two: "2 \<le> ?x'" using b "1.prems" by linarith
    have e: "length pre + ?x' - 2 = length pre + (?x' - 2)"
      using two by linarith
    have idx: "(pre @ code) ! (length pre + ?x' - 2) = code ! (?x' - 2)"
      unfolding e by (rule nth_append_length_plus)
    have lt: "(length pre + ?x' - 2 < length (pre @ code)) = (?x' - 2 < length code)"
      unfolding e by simp
    show ?thesis
    proof (cases "?x' - 2 < length code \<and> code ! (?x' - 2) = backslash")
      case True
      have "scanString (pre @ code) (length pre + ?x') (h @ r)
            = map_sum (\<lambda>e. e) (apfst ((+) (length pre))) (scanString code ?x' (h @ r))"
        using "1.IH"[OF Some refl refl] True two by simp
      then show ?thesis using Some True two idx lt
        by (subst scanString.simps, subst (2) scanString.simps) (simp add: Let_def add.assoc)
    next
      case False
      then show ?thesis using Some two idx lt
        by (subst scanString.simps, subst (2) scanString.simps)
           (auto simp add: Let_def add.assoc)
    qed
  qed
qed

lemma scanCode_shift:
  "scanCode (pre @ code) (length pre + x) as h = scanCode code x as h"
proof (induction code x as h rule: scanCode.induct)
  case (1 code x as h)
  show ?case
  proof (cases "x < length code")
    case False
    then show ?thesis by (subst scanCode.simps, subst (2) scanCode.simps) simp
  next
    case lt: True
    show ?thesis
    proof (cases "code ! x = quote")
      case q: True
      have ss: "scanString (pre @ code) (length pre + (x + 1)) (h @ [code ! x])
                = map_sum (\<lambda>e. e) (apfst ((+) (length pre))) (scanString code (x + 1) (h @ [code ! x]))"
        by (rule scanString_shift) simp
      show ?thesis
      proof (cases "scanString code (x + 1) (h @ [code ! x])")
        case (Inl e)
        then show ?thesis using lt q ss
          by (subst scanCode.simps, subst (2) scanCode.simps)
             (simp add: nth_append add.assoc)
      next
        case (Inr r)
        obtain x' h' where r: "r = (x', h')" by (cases r)
        from "1.IH"(1)[OF lt q Inr[unfolded r] refl]
        have "scanCode (pre @ code) (length pre + x') as h' = scanCode code x' as h'" .
        then show ?thesis using lt q ss Inr r
          by (subst scanCode.simps, subst (2) scanCode.simps)
             (simp add: nth_append add.assoc)
      qed
    next
      case nq: False
      show ?thesis
      proof (cases "matchCellRegex (drop x code)")
        case None
        from "1.IH"(2)[OF lt nq None] show ?thesis using lt nq None
          by (subst scanCode.simps, subst (2) scanCode.simps)
             (simp add: nth_append add.assoc)
      next
        case (Some r)
        from "1.IH"(3)[OF lt nq Some] show ?thesis using lt nq Some
          by (subst scanCode.simps, subst (2) scanCode.simps)
             (simp add: nth_append add.assoc)
      qed
    qed
  qed
qed


lemma stringContent_last: "stringContent prev body \<Longrightarrow> last (prev # body) \<noteq> backslash"
  by (induction body arbitrary: prev) auto

lemma stringContent_split:
  "stringContent prev (b1 @ c # b2) \<Longrightarrow> (c = quote \<longrightarrow> last (prev # b1) = backslash) \<and> stringContent c b2"
  by (induction b1 arbitrary: prev) auto

lemma nth_of_drop_prefix:
  assumes "drop x code = ys @ zs" and "i < length ys"
  shows "code ! (x + i) = ys ! i"
proof -
  have "x + i < length code"
  proof (rule ccontr)
    assume "\<not> x + i < length code"
    then have "length (drop x code) \<le> i" by simp
    with assms show False by simp
  qed
  then have "code ! (x + i) = drop x code ! i" by simp
  with assms show ?thesis by (simp add: nth_append)
qed

lemma last_before:
  assumes d: "drop x code = b1 @ zs" and x: "1 \<le> x"
  shows "code ! (x + length b1 - 1) = last (code ! (x - 1) # b1)"
proof (cases "b1 = []")
  case True
  then show ?thesis by simp
next
  case False
  then have "length b1 - 1 < length b1" by simp
  from nth_of_drop_prefix[OF d this]
  have "code ! (x + (length b1 - 1)) = b1 ! (length b1 - 1)" .
  moreover have "x + (length b1 - 1) = x + length b1 - 1"
    using False by (cases b1) simp_all
  ultimately show ?thesis using False by (simp add: last_conv_nth)
qed

lemma takeWhile_upto_quote:
  "quote \<notin> set b \<Longrightarrow> takeWhile (\<lambda>c. c \<noteq> quote) (b @ quote # r) = b"
  by (induction b) auto

lemma scanString_content:
  assumes "drop x code = body @ quote # rest" and "1 \<le> x"
    and "stringContent (code ! (x - 1)) body"
  shows "scanString code x h = Inr (x + length body + 1, h @ body @ [quote])"
  using assms
proof (induction "length body" arbitrary: body x h rule: less_induct)
  case less
  note d = less.prems(1) and x = less.prems(2) and sc = less.prems(3)
  let ?b1 = "takeWhile (\<lambda>c. c \<noteq> quote) body"
  show ?case
  proof (cases "quote \<in> set body")
    case False
    then have tw: "takeWhile (\<lambda>c. c \<noteq> quote) (drop x code) = body"
      unfolding d by (rule takeWhile_upto_quote)
    have m: "matchStringRegex (drop x code) = Some (body @ [quote])"
      using tw by (simp add: matchStringRegex_def d)
    have lk: "code ! (x + length body - 1) = last (code ! (x - 1) # body)"
      by (rule last_before[OF d x])
    have "code ! (x + length (body @ [quote]) - 2) \<noteq> backslash"
      using lk stringContent_last[OF sc] by simp
    then show ?thesis using m
      by (subst scanString.simps) (simp add: Let_def)
  next
    case True
    then obtain b2 where body: "body = ?b1 @ quote # b2"
      by (metis (mono_tags, lifting) takeWhile_dropWhile_id dropWhile_eq_Nil_conv hd_dropWhile list.collapse)
    have nq: "quote \<notin> set ?b1" by (auto dest: set_takeWhileD)
    have d': "drop x code = ?b1 @ quote # (b2 @ quote # rest)"
      using d body by (metis append.assoc append_Cons)
    have tw: "takeWhile (\<lambda>c. c \<noteq> quote) (drop x code) = ?b1"
      unfolding d' using nq by (rule takeWhile_upto_quote)
    have m: "matchStringRegex (drop x code) = Some (?b1 @ [quote])"
      using tw unfolding matchStringRegex_def by (simp add: d')
    let ?x' = "x + length (?b1 @ [quote])"
    have sp: "last (code ! (x - 1) # ?b1) = backslash" "stringContent quote b2"
      using stringContent_split[of "code ! (x - 1)" ?b1 quote b2] sc body by auto
    have lk: "code ! (x + length ?b1 - 1) = last (code ! (x - 1) # ?b1)"
      by (rule last_before[OF d' x])
    have bs: "code ! (?x' - 2) = backslash" using lk sp(1) by simp
    have inside: "?x' - 2 < length code"
    proof -
      have "length (drop x code) = length ?b1 + 1 + length (b2 @ quote # rest)"
        unfolding d' by simp
      then show ?thesis using x by auto
    qed
    have two: "2 \<le> ?x'" using x by simp
    have dn: "drop ?x' code = b2 @ quote # rest"
    proof -
      have "drop ?x' code = drop (length (?b1 @ [quote])) (drop x code)"
        by (simp add: add.commute)
      also have "\<dots> = b2 @ quote # rest" unfolding d' by simp
      finally show ?thesis .
    qed
    have qa: "code ! (?x' - 1) = quote"
      using nth_of_drop_prefix[of x code "?b1 @ [quote]" "b2 @ quote # rest" "length ?b1"] d'
      by simp
    have lb: "length body = length ?b1 + 1 + length b2"
      using arg_cong[OF body, of length] by simp
    have len: "length b2 < length body" using lb by simp
    have ih: "scanString code ?x' (h @ ?b1 @ [quote])
              = Inr (?x' + length b2 + 1, (h @ ?b1 @ [quote]) @ b2 @ [quote])"
      by (rule less.hyps[OF len dn]) (use two qa sp in simp_all)
    have fin: "?x' + length b2 + 1 = x + length body + 1"
      using lb by simp
    have "h @ body @ [quote] = h @ (?b1 @ quote # b2) @ [quote]"
      using arg_cong[OF body, of "\<lambda>b. h @ b @ [quote]"] .
    then have fin2: "(h @ ?b1 @ [quote]) @ b2 @ [quote] = h @ body @ [quote]"
      by simp
    show ?thesis
      using m bs inside two ih unfolding fin fin2
      by (subst scanString.simps) (simp add: Let_def)
  qed
qed


lemma scanCode_at_quote:
  assumes "x < length code" and "code ! x = quote"
    and "drop (x + 1) code = body @ quote # rest" and "stringContent quote body"
  shows "scanCode code x as h = scanCode code (x + length body + 2) as (h @ quote # body @ [quote])"
proof -
  have "scanString code (x + 1) (h @ [code ! x])
        = Inr (x + 1 + length body + 1, (h @ [code ! x]) @ body @ [quote])"
    by (rule scanString_content[OF assms(3)]) (use assms in simp_all)
  then show ?thesis using assms(1,2)
    by (subst scanCode.simps) (simp add: add.commute add.left_commute)
qed

lemma scanCode_empty: "scanCode [] 0 as h = Inr \<lparr>addresses = as, hash = h\<rparr>"
  by (subst scanCode.simps) simp

lemma scanCode_quoted:
  assumes "stringContent quote body"
  shows "scanCode (quote # body @ quote # rest) 0 as h
         = scanCode rest 0 as (h @ quote # body @ [quote])"
proof -
  let ?code = "quote # body @ quote # rest"
  have "scanCode ?code 0 as h = scanCode ?code (0 + length body + 2) as (h @ quote # body @ [quote])"
    by (rule scanCode_at_quote[where rest = rest]) (use assms in simp_all)
  also have "\<dots> = scanCode ((quote # body @ [quote]) @ rest) (length (quote # body @ [quote]) + 0)
                      as (h @ quote # body @ [quote])"
    by simp
  also have "\<dots> = scanCode rest 0 as (h @ quote # body @ [quote])"
    by (rule scanCode_shift)
  finally show ?thesis .
qed

lemma scanCode_copy:
  assumes "c \<noteq> quote" and "matchCellRegex (c # s) = None"
  shows "scanCode (c # s) 0 as h = scanCode s 0 as (h @ [c])"
proof -
  have "scanCode (c # s) 0 as h = scanCode ([c] @ s) (length [c] + 0) as (h @ [c])"
    using assms by (subst scanCode.simps) simp
  also have "\<dots> = scanCode s 0 as (h @ [c])" by (rule scanCode_shift)
  finally show ?thesis .
qed

lemma matchCellPart_prefix: "matchCellPart s = Some r \<Longrightarrow> take (length r) s = r"
proof -
  assume a: "matchCellPart s = Some r"
  let ?l = "takeWhile isLetter s" and ?d = "takeWhile isDigit (dropWhile isLetter s)"
  from a have r: "r = ?l @ ?d"
    by (auto simp: matchCellPart_def Let_def split: if_splits)
  have "s = ?l @ ?d @ dropWhile isDigit (dropWhile isLetter s)" by simp
  then have "take (length (?l @ ?d)) s = ?l @ ?d"
    by (metis append.assoc append_eq_conv_conj)
  with r show ?thesis by simp
qed

lemma matchCellPart_letter: "matchCellPart s = Some r \<Longrightarrow> s \<noteq> [] \<and> isLetter (hd s)"
  by (cases s) (auto simp: matchCellPart_def Let_def split: if_splits)

lemma matchCellRegex_prefix: "matchCellRegex s = Some r \<Longrightarrow> take (length r) s = r"
proof -
  assume a: "matchCellRegex s = Some r"
  then obtain c1 where c1: "matchCellPart s = Some c1"
    by (auto simp: matchCellRegex_def split: option.splits)
  have p1: "take (length c1) s = c1" by (rule matchCellPart_prefix[OF c1])
  then have s: "s = c1 @ drop (length c1) s" by (metis append_take_drop_id)
  show ?thesis
  proof (cases "r = c1")
    case True
    with p1 show ?thesis by simp
  next
    case False
    with a c1 obtain rest c2 where d: "drop (length c1) s = CHR '':'' # rest"
      and c2: "matchCellPart rest = Some c2" and r: "r = c1 @ [CHR '':''] @ c2"
      by (auto simp: matchCellRegex_def split: option.splits list.splits if_splits)
    have p2: "take (length c2) rest = c2" by (rule matchCellPart_prefix[OF c2])
    then have "rest = c2 @ drop (length c2) rest" by (metis append_take_drop_id)
    with s d have "s = (c1 @ [CHR '':''] @ c2) @ drop (length c2) rest"
      by (metis append.assoc append_Cons append_Nil)
    then have "take (length (c1 @ [CHR '':''] @ c2)) s = c1 @ [CHR '':''] @ c2"
      by (metis append_eq_conv_conj)
    with r show ?thesis by simp
  qed
qed

lemma quote_not_letter: "\<not> isLetter quote"
  by (simp add: isLetter_def quote_def)

lemma matchCellRegex_letter: "matchCellRegex s = Some r \<Longrightarrow> s \<noteq> [] \<and> hd s \<noteq> quote"
proof -
  assume "matchCellRegex s = Some r"
  then obtain c1 where "matchCellPart s = Some c1"
    by (auto simp: matchCellRegex_def split: option.splits)
  from matchCellPart_letter[OF this] quote_not_letter show ?thesis by auto
qed

lemma scanCode_cell:
  assumes "matchCellRegex (r @ s) = Some r"
  shows "scanCode (r @ s) 0 as h = scanCode s 0 (as @ [r]) (h @ ''#'')"
proof -
  from matchCellRegex_letter[OF assms] have ne: "r @ s \<noteq> []" and nq: "hd (r @ s) \<noteq> quote"
    by simp_all
  then have nq': "(r @ s) ! 0 \<noteq> quote" by (simp add: hd_conv_nth)
  have "scanCode (r @ s) 0 as h = scanCode (r @ s) (length r + 0) (as @ [r]) (h @ ''#'')"
    using assms ne nq' by (subst scanCode.simps) simp
  also have "\<dots> = scanCode s 0 (as @ [r]) (h @ ''#'')" by (rule scanCode_shift)
  finally show ?thesis .
qed


lemma scanCode_stringLiteral:
  assumes "isStringLiteral img"
  shows "scanCode (img @ rest) 0 as h = scanCode rest 0 as (h @ img)"
proof -
  from assms obtain cs where img: "img = quote # cs" and cs: "cs \<noteq> []" "last cs = quote"
    and sc: "stringContent quote (butlast cs)"
    by (auto simp: isStringLiteral_def split: list.splits)
  from cs have cs': "cs = butlast cs @ [quote]" by (metis append_butlast_last_id)
  have "img @ rest = quote # butlast cs @ quote # rest"
    unfolding img by (subst cs') simp
  moreover have "h @ img = h @ quote # butlast cs @ [quote]"
    unfolding img by (subst cs') simp
  ultimately show ?thesis using scanCode_quoted[OF sc, of rest as h] by simp
qed

lemma scanCode_copiedVerbatim:
  "copiedVerbatim img rest \<Longrightarrow> scanCode (img @ rest) 0 as h = scanCode rest 0 as (h @ img)"
proof (induction img arbitrary: h)
  case Nil
  show ?case by simp
next
  case (Cons c cs)
  then have "scanCode ((c # cs) @ rest) 0 as h = scanCode (cs @ rest) 0 as (h @ [c])"
    by (simp add: scanCode_copy)
  also have "\<dots> = scanCode rest 0 as ((h @ [c]) @ cs)"
    using Cons by simp
  finally show ?case by simp
qed

lemma startsRange_Cons2 [simp]:
  "startsRange (t1 # t2 # ts) = (tokenName t1 = ''RangeSeparator'' \<and> tokenName t2 = ''RelativeCell'')"
  by (simp add: startsRange_def)

lemma startsRange_cases:
  assumes "startsRange ts"
  obtains t1 t2 ts' where "ts = t1 # t2 # ts'" "tokenName t1 = ''RangeSeparator''"
    "tokenName t2 = ''RelativeCell''"
  using assms by (auto simp: startsRange_def split: list.splits)

lemma hashTokens_other:
  "tokenName t \<noteq> ''RelativeCell'' \<Longrightarrow> hashTokens (t # ts) as h = hashTokens ts as (h @ image t)"
  by (subst hashTokens.simps(2)) simp

lemma hashTokens_range:
  "tokenName t = ''RelativeCell'' \<Longrightarrow> tokenName t1 = ''RangeSeparator''
   \<Longrightarrow> tokenName t2 = ''RelativeCell''
   \<Longrightarrow> hashTokens (t # t1 # t2 # ts) as h
       = hashTokens ts (as @ [image t @ '':'' @ image t2]) (h @ ''#'')"
  by (subst hashTokens.simps(2)) simp

lemma hashTokens_single:
  "tokenName t = ''RelativeCell'' \<Longrightarrow> \<not> startsRange ts
   \<Longrightarrow> hashTokens (t # ts) as h = hashTokens ts (as @ [image t]) (h @ ''#'')"
  by (subst hashTokens.simps(2)) (auto simp add: startsRange_def split: list.splits)

lemma lexerAligned_other:
  "tokenName t \<noteq> ''RelativeCell'' \<Longrightarrow>
   lexerAligned (t # ts)
   = ((isStringLiteral (image t) \<or> copiedVerbatim (image t) (textOf ts)) \<and> lexerAligned ts)"
  by (subst lexerAligned.simps(2)) simp

lemma lexerAligned_range:
  "tokenName t = ''RelativeCell'' \<Longrightarrow> tokenName t1 = ''RangeSeparator''
   \<Longrightarrow> tokenName t2 = ''RelativeCell''
   \<Longrightarrow> lexerAligned (t # t1 # t2 # ts)
       = (image t1 = '':''
          \<and> matchCellRegex (textOf (t # t1 # t2 # ts)) = Some (image t @ '':'' @ image t2)
          \<and> lexerAligned ts)"
  by (subst lexerAligned.simps(2)) simp

lemma lexerAligned_single:
  "tokenName t = ''RelativeCell'' \<Longrightarrow> \<not> startsRange ts
   \<Longrightarrow> lexerAligned (t # ts)
       = (matchCellRegex (textOf (t # ts)) = Some (image t) \<and> lexerAligned ts)"
  by (subst lexerAligned.simps(2)) (auto simp add: startsRange_def split: list.splits)

lemma scanCode_aligned:
  "lexerAligned ts \<Longrightarrow> scanCode (textOf ts) 0 as h = Inr (hashTokens ts as h)"
proof (induction "length ts" arbitrary: ts as h rule: less_induct)
  case less
  show ?case
  proof (cases ts)
    case Nil
    then show ?thesis by (simp add: textOf_def scanCode_empty)
  next
    case (Cons t ts0)
    have tx: "textOf (t # ts0) = image t @ textOf ts0" by (simp add: textOf_def)
    show ?thesis
    proof (cases "tokenName t = ''RelativeCell''")
      case False
      with less.prems Cons have v: "isStringLiteral (image t) \<or> copiedVerbatim (image t) (textOf ts0)"
        and al: "lexerAligned ts0" by (simp_all add: lexerAligned_other)
      have "scanCode (image t @ textOf ts0) 0 as h = scanCode (textOf ts0) 0 as (h @ image t)"
      proof (cases "isStringLiteral (image t)")
        case True
        then show ?thesis by (rule scanCode_stringLiteral)
      next
        case False
        with v have "copiedVerbatim (image t) (textOf ts0)" by simp
        then show ?thesis by (rule scanCode_copiedVerbatim)
      qed
      also have "\<dots> = Inr (hashTokens ts0 as (h @ image t))"
        by (rule less.hyps[OF _ al]) (simp add: Cons)
      finally show ?thesis using False Cons tx by (simp add: hashTokens_other)
    next
      case rc: True
      show ?thesis
      proof (cases "startsRange ts0")
        case True
        then obtain t1 t2 ts' where ts: "ts0 = t1 # t2 # ts'"
          and n: "tokenName t1 = ''RangeSeparator''" "tokenName t2 = ''RelativeCell''"
          by (rule startsRange_cases)
        from less.prems Cons ts have sep: "image t1 = '':''"
          and m: "matchCellRegex (textOf (t # ts0)) = Some (image t @ '':'' @ image t2)"
          and al: "lexerAligned ts'"
          by (simp_all add: lexerAligned_range[OF rc n])
        let ?r = "image t @ '':'' @ image t2"
        have tx': "textOf (t # ts0) = ?r @ textOf ts'"
          by (simp add: textOf_def ts sep)
        have "scanCode (?r @ textOf ts') 0 as h = scanCode (textOf ts') 0 (as @ [?r]) (h @ ''#'')"
          by (rule scanCode_cell) (use m tx' in simp)
        also have "\<dots> = Inr (hashTokens ts' (as @ [?r]) (h @ ''#''))"
          by (rule less.hyps[OF _ al]) (simp add: Cons ts)
        finally show ?thesis using Cons ts tx' by (simp add: hashTokens_range[OF rc n])
      next
        case False
        from less.prems Cons
        have m: "matchCellRegex (textOf (t # ts0)) = Some (image t)" and al: "lexerAligned ts0"
          by (simp_all add: lexerAligned_single[OF rc False])
        have "scanCode (image t @ textOf ts0) 0 as h
              = scanCode (textOf ts0) 0 (as @ [image t]) (h @ ''#'')"
          by (rule scanCode_cell) (use m tx in simp)
        also have "\<dots> = Inr (hashTokens ts0 (as @ [image t]) (h @ ''#''))"
          by (rule less.hyps[OF _ al]) (simp add: Cons)
        finally show ?thesis using Cons tx by (simp add: hashTokens_single[OF rc False])
      qed
    qed
  qed
qed

lemma scanString_acc:
  "scanString code x h = map_sum (\<lambda>e. e) (apsnd ((@) h)) (scanString code x [])"
proof (induction "length code - x" arbitrary: x h rule: less_induct)
  case less
  show ?case
  proof (cases "matchStringRegex (drop x code)")
    case None
    then show ?thesis by (subst scanString.simps, subst (2) scanString.simps) simp
  next
    case (Some r)
    have b: "0 < length r" "x + length r \<le> length code"
      by (rule matchStringRegex_bounds[OF Some])+
    then have dec: "length code - (x + length r) < length code - x" by linarith
    show ?thesis
    proof (cases "2 \<le> x + length r \<and> x + length r - 2 < length code
        \<and> code ! (x + length r - 2) = backslash")
      case True
      have "scanString code (x + length r) (h @ r)
            = map_sum (\<lambda>e. e) (apsnd ((@) (h @ r))) (scanString code (x + length r) [])"
        by (rule less.hyps[OF dec])
      moreover have "scanString code (x + length r) r
            = map_sum (\<lambda>e. e) (apsnd ((@) r)) (scanString code (x + length r) [])"
        by (rule less.hyps[OF dec])
      ultimately show ?thesis using Some True
        by (subst scanString.simps, subst (2) scanString.simps)
           (cases "scanString code (x + length r) []"; auto simp add: Let_def)
    next
      case False
      then show ?thesis using Some
        by (subst scanString.simps, subst (2) scanString.simps) (auto simp add: Let_def)
    qed
  qed
qed

lemma prepend_prepend: "prepend as h (prepend as' h' r) = prepend (as @ as') (h @ h') r"
  by (simp add: prepend_def)

lemma scanCode_acc:
  "scanCode code x as h = map_sum (\<lambda>e. e) (prepend as h) (scanCode code x [] [])"
proof (induction "length code - x" arbitrary: x as h rule: less_induct)
  case less
  show ?case
  proof (cases "x < length code")
    case False
    then show ?thesis
      by (subst scanCode.simps, subst (2) scanCode.simps) (simp add: prepend_def)
  next
    case lt: True
    show ?thesis
    proof (cases "code ! x = quote")
      case q: True
      show ?thesis
      proof (cases "scanString code (x + 1) []")
        case (Inl e)
        then have "scanString code (x + 1) (h @ [code ! x]) = Inl e"
          and "scanString code (x + 1) [code ! x] = Inl e"
          by (subst scanString_acc, simp)+
        then show ?thesis using lt q
          by (subst scanCode.simps, subst (2) scanCode.simps) simp
      next
        case (Inr r)
        obtain x' h' where r: "r = (x', h')" by (cases r)
        from scanString_advances[OF Inr[unfolded r]] lt
        have dec: "length code - x' < length code - x" by linarith
        have s1: "scanString code (x + 1) (h @ [code ! x]) = Inr (x', (h @ [code ! x]) @ h')"
          and s2: "scanString code (x + 1) [code ! x] = Inr (x', [code ! x] @ h')"
          using Inr r by (subst scanString_acc, simp)+
        have "scanCode code x' as ((h @ [code ! x]) @ h')
              = map_sum (\<lambda>e. e) (prepend as ((h @ [code ! x]) @ h')) (scanCode code x' [] [])"
          by (rule less.hyps[OF dec])
        moreover have "scanCode code x' [] ([code ! x] @ h')
              = map_sum (\<lambda>e. e) (prepend [] ([code ! x] @ h')) (scanCode code x' [] [])"
          by (rule less.hyps[OF dec])
        ultimately show ?thesis using lt q s1 s2
          by (subst scanCode.simps, subst (2) scanCode.simps)
             (cases "scanCode code x' [] []"; simp add: prepend_def)
      qed
    next
      case nq: False
      show ?thesis
      proof (cases "matchCellRegex (drop x code)")
        case None
        have dec: "length code - (x + 1) < length code - x" using lt by linarith
        have "scanCode code (x + 1) as (h @ [code ! x])
              = map_sum (\<lambda>e. e) (prepend as (h @ [code ! x])) (scanCode code (x + 1) [] [])"
          by (rule less.hyps[OF dec])
        moreover have "scanCode code (x + 1) [] [code ! x]
              = map_sum (\<lambda>e. e) (prepend [] [code ! x]) (scanCode code (x + 1) [] [])"
          by (rule less.hyps[OF dec])
        ultimately show ?thesis using lt nq None
          by (subst scanCode.simps, subst (2) scanCode.simps)
             (cases "scanCode code (x + 1) [] []"; simp add: prepend_def)
      next
        case (Some r)
        from matchCellRegex_nonempty[OF Some] lt
        have dec: "length code - (x + length r) < length code - x" by linarith
        have "scanCode code (x + length r) (as @ [r]) (h @ ''#'')
              = map_sum (\<lambda>e. e) (prepend (as @ [r]) (h @ ''#'')) (scanCode code (x + length r) [] [])"
          by (rule less.hyps[OF dec])
        moreover have "scanCode code (x + length r) [r] ''#''
              = map_sum (\<lambda>e. e) (prepend [r] ''#'') (scanCode code (x + length r) [] [])"
          by (rule less.hyps[OF dec])
        ultimately show ?thesis using lt nq Some
          by (subst scanCode.simps, subst (2) scanCode.simps)
             (cases "scanCode code (x + length r) [] []"; simp add: prepend_def)
      qed
    qed
  qed
qed

lemma matchStringRegex_append:
  "matchStringRegex s = Some r \<Longrightarrow> matchStringRegex (s @ t) = Some r"
  by (auto simp: matchStringRegex_def takeWhile_append1 split: if_splits)

lemma scanString_extend:
  "scanString code x h = Inr (x', h') \<Longrightarrow> scanString (code @ t) x h = Inr (x', h')"
proof (induction code x h rule: scanString.induct)
  case (1 code x h)
  from "1.prems" obtain r where r: "matchStringRegex (drop x code) = Some r"
    by (subst (asm) scanString.simps) (auto split: option.splits)
  have b: "0 < length r" "x + length r \<le> length code"
    by (rule matchStringRegex_bounds[OF r])+
  then have xl: "x \<le> length code" by linarith
  have r': "matchStringRegex (drop x (code @ t)) = Some r"
    using matchStringRegex_append[OF r, of t] xl by simp
  have lk: "x + length r - 2 < length code" using b by linarith
  then have nth: "(code @ t) ! (x + length r - 2) = code ! (x + length r - 2)"
    by (simp add: nth_append)
  have lk': "x + length r - 2 < length (code @ t)" using lk by simp
  show ?case
  proof (cases "2 \<le> x + length r \<and> code ! (x + length r - 2) = backslash")
    case True
    with "1.prems" r lk have "scanString code (x + length r) (h @ r) = Inr (x', h')"
      by (subst (asm) scanString.simps) (simp add: Let_def)
    from "1.IH"[OF r refl refl _ this] True lk
    have "scanString (code @ t) (x + length r) (h @ r) = Inr (x', h')" by simp
    then show ?thesis using r' True nth lk'
      by (subst scanString.simps) (simp add: Let_def)
  next
    case False
    with "1.prems" r have "Inr (x + length r, h @ r) = (Inr (x', h') :: error + nat \<times> string)"
      by (subst (asm) scanString.simps) (auto simp add: Let_def)
    then show ?thesis using r' False nth lk'
      by (subst scanString.simps) (auto simp add: Let_def)
  qed
qed

lemma quote_not_digit: "\<not> isDigit quote"
  by (simp add: isDigit_def quote_def)

lemma takeWhile_before_stop:
  "\<not> P c \<Longrightarrow> takeWhile P (u @ c # v) = takeWhile P u"
  by (induction u) auto

lemma dropWhile_before_stop:
  "\<not> P c \<Longrightarrow> dropWhile P (u @ c # v) = dropWhile P u @ c # v"
  by (induction u) auto

lemma matchCellPart_before_quote: "matchCellPart (u @ quote # v) = matchCellPart u"
proof -
  have l: "takeWhile isLetter (u @ quote # v) = takeWhile isLetter u"
    by (rule takeWhile_before_stop) (rule quote_not_letter)
  have d: "dropWhile isLetter (u @ quote # v) = dropWhile isLetter u @ quote # v"
    by (rule dropWhile_before_stop) (rule quote_not_letter)
  have "takeWhile isDigit (dropWhile isLetter (u @ quote # v))
        = takeWhile isDigit (dropWhile isLetter u)"
    unfolding d by (rule takeWhile_before_stop) (rule quote_not_digit)
  with l show ?thesis by (simp add: matchCellPart_def)
qed

lemma take_eq_length: "take (length r) s = r \<Longrightarrow> length r \<le> length s"
proof -
  assume "take (length r) s = r"
  then have "length (take (length r) s) = length r" by simp
  then show ?thesis by simp
qed

lemma matchCellPart_length: "matchCellPart s = Some r \<Longrightarrow> length r \<le> length s"
  by (rule take_eq_length) (rule matchCellPart_prefix)

lemma matchCellRegex_before_quote: "matchCellRegex (u @ quote # v) = matchCellRegex u"
proof (cases "matchCellPart u")
  case None
  then show ?thesis by (simp add: matchCellRegex_def matchCellPart_before_quote)
next
  case (Some c1)
  have le: "length c1 \<le> length u" by (rule matchCellPart_length[OF Some])
  then have d: "drop (length c1) (u @ quote # v) = drop (length c1) u @ quote # v" by simp
  have mp: "matchCellPart (u @ quote # v) = Some c1"
    using Some by (simp add: matchCellPart_before_quote)
  have qc: "quote \<noteq> CHR '':''" by (simp add: quote_def)
  show ?thesis
  proof (cases "drop (length c1) u")
    case Nil
    with d have "drop (length c1) (u @ quote # v) = quote # v" by simp
    then have "matchCellRegex (u @ quote # v) = Some c1"
      using mp qc by (simp add: matchCellRegex_def)
    moreover have "matchCellRegex u = Some c1"
      using Some Nil by (simp add: matchCellRegex_def)
    ultimately show ?thesis by simp
  next
    case (Cons c rest)
    with d have "drop (length c1) (u @ quote # v) = c # (rest @ quote # v)" by simp
    then have "matchCellRegex (u @ quote # v)
        = (if c = CHR '':'' then (case matchCellPart rest of Some c2 \<Rightarrow> Some (c1 @ [c] @ c2)
             | None \<Rightarrow> Some c1) else Some c1)"
      using mp by (simp add: matchCellRegex_def matchCellPart_before_quote)
    moreover have "matchCellRegex u
        = (if c = CHR '':'' then (case matchCellPart rest of Some c2 \<Rightarrow> Some (c1 @ [c] @ c2)
             | None \<Rightarrow> Some c1) else Some c1)"
      using Some Cons by (simp add: matchCellRegex_def)
    ultimately show ?thesis by simp
  qed
qed

lemma matchCellRegex_length: "matchCellRegex s = Some r \<Longrightarrow> length r \<le> length s"
  by (rule take_eq_length) (rule matchCellRegex_prefix)

lemma scanCode_prefix:
  "x \<le> length pre \<Longrightarrow> scanCode pre x as h = Inr r
   \<Longrightarrow> scanCode (pre @ quote # s) x as h
       = scanCode (pre @ quote # s) (length pre) (addresses r) (hash r)"
proof (induction pre x as h rule: scanCode.induct)
  case (1 code x as h)
  show ?case
  proof (cases "x < length code")
    case False
    with "1.prems" have "x = length code" by simp
    moreover from False "1.prems"(2) have "r = \<lparr>addresses = as, hash = h\<rparr>"
      by (subst (asm) scanCode.simps) simp
    ultimately show ?thesis by simp
  next
    case lt: True
    then have nth: "(code @ quote # s) ! x = code ! x" by (simp add: nth_append)
    have lt': "x < length (code @ quote # s)" using lt by simp
    show ?thesis
    proof (cases "code ! x = quote")
      case q: True
      from "1.prems"(2) lt q obtain x' h' where
        ss: "scanString code (x + 1) (h @ [code ! x]) = Inr (x', h')"
        and rest: "scanCode code x' as h' = Inr r"
        by (subst (asm) scanCode.simps) (auto split: sum.splits)
      from scanString_advances[OF ss] have x': "x' \<le> length code" by simp
      have ss': "scanString (code @ quote # s) (x + 1) (h @ [code ! x]) = Inr (x', h')"
        by (rule scanString_extend[OF ss])
      from "1.IH"(1)[OF lt q ss refl x' rest]
      show ?thesis using lt' nth q ss'
        by (subst scanCode.simps) simp
    next
      case nq: False
      have dr: "drop x (code @ quote # s) = drop x code @ quote # s" using lt by simp
      show ?thesis
      proof (cases "matchCellRegex (drop x code)")
        case None
        with "1.prems"(2) lt nq have rest: "scanCode code (x + 1) as (h @ [code ! x]) = Inr r"
          by (subst (asm) scanCode.simps) simp
        from "1.IH"(2)[OF lt nq None _ rest] lt
        show ?thesis using lt' nth nq None dr
          by (subst scanCode.simps) (simp add: matchCellRegex_before_quote)
      next
        case (Some m)
        with "1.prems"(2) lt nq have rest: "scanCode code (x + length m) (as @ [m]) (h @ ''#'') = Inr r"
          by (subst (asm) scanCode.simps) simp
        from matchCellRegex_length[OF Some] lt have "x + length m \<le> length code" by simp
        from "1.IH"(3)[OF lt nq Some this rest]
        show ?thesis using lt' nth nq Some dr
          by (subst scanCode.simps) (simp add: matchCellRegex_before_quote)
      qed
    qed
  qed
qed

lemma differOnly_Nil [simp]: "differOnlyInRelativeCells [] ts = (ts = [])"
  by (simp add: differOnlyInRelativeCells_def)

lemma differOnly_Cons:
  "differOnlyInRelativeCells (t # ts) us
   = (\<exists>u us'. us = u # us' \<and> tokenName t = tokenName u
        \<and> (tokenName t = ''RelativeCell'' \<or> image t = image u)
        \<and> differOnlyInRelativeCells ts us')"
  by (auto simp: differOnlyInRelativeCells_def list_all2_Cons1)

lemma differOnly_startsRange:
  "differOnlyInRelativeCells ts us \<Longrightarrow> startsRange ts = startsRange us"
proof (cases ts)
  case Nil
  assume "differOnlyInRelativeCells ts us"
  with Nil show ?thesis by simp
next
  case (Cons t1 ts1)
  assume d: "differOnlyInRelativeCells ts us"
  with Cons obtain u1 us1 where us: "us = u1 # us1" and n1: "tokenName t1 = tokenName u1"
    and d1: "differOnlyInRelativeCells ts1 us1"
    by (auto simp: differOnly_Cons)
  show ?thesis
  proof (cases ts1)
    case Nil
    with d1 have "us1 = []" by simp
    with Cons Nil us show ?thesis by (simp add: startsRange_def)
  next
    case c2: (Cons t2 ts2)
    with d1 obtain u2 us2 where "us1 = u2 # us2" and "tokenName t2 = tokenName u2"
      by (auto simp: differOnly_Cons)
    with Cons c2 us n1 show ?thesis by simp
  qed
qed

lemma hashTokens_differOnly:
  "differOnlyInRelativeCells ts us \<Longrightarrow> hash (hashTokens ts as h) = hash (hashTokens us as' h)"
proof (induction "length ts" arbitrary: ts us as as' h rule: less_induct)
  case less
  show ?case
  proof (cases ts)
    case Nil
    with less.prems show ?thesis by simp
  next
    case (Cons t ts0)
    with less.prems obtain u us0 where us: "us = u # us0" and n: "tokenName t = tokenName u"
      and im: "tokenName t = ''RelativeCell'' \<or> image t = image u"
      and d: "differOnlyInRelativeCells ts0 us0"
      by (auto simp: differOnly_Cons)
    show ?thesis
    proof (cases "tokenName t = ''RelativeCell''")
      case False
      with im n have "image t = image u" "tokenName u \<noteq> ''RelativeCell''" by simp_all
      moreover have "hash (hashTokens ts0 as (h @ image u)) = hash (hashTokens us0 as' (h @ image u))"
        by (rule less.hyps[OF _ d]) (simp add: Cons)
      ultimately show ?thesis using False Cons us by (simp add: hashTokens_other)
    next
      case rc: True
      then have rc': "tokenName u = ''RelativeCell''" using n by simp
      show ?thesis
      proof (cases "startsRange ts0")
        case True
        then obtain t1 t2 ts' where ts0: "ts0 = t1 # t2 # ts'"
          and nt: "tokenName t1 = ''RangeSeparator''" "tokenName t2 = ''RelativeCell''"
          by (rule startsRange_cases)
        from True d have "startsRange us0" by (simp add: differOnly_startsRange)
        then obtain u1 u2 us' where us0: "us0 = u1 # u2 # us'"
          and nu: "tokenName u1 = ''RangeSeparator''" "tokenName u2 = ''RelativeCell''"
          by (rule startsRange_cases)
        from d ts0 us0 have d': "differOnlyInRelativeCells ts' us'"
          by (simp add: differOnly_Cons)
        have "hash (hashTokens ts' (as @ [image t @ '':'' @ image t2]) (h @ ''#''))
              = hash (hashTokens us' (as' @ [image u @ '':'' @ image u2]) (h @ ''#''))"
          by (rule less.hyps[OF _ d']) (simp add: Cons ts0)
        then show ?thesis using Cons us ts0 us0
          by (simp add: hashTokens_range[OF rc nt] hashTokens_range[OF rc' nu])
      next
        case False
        with d have nr: "\<not> startsRange us0" by (simp add: differOnly_startsRange)
        have "hash (hashTokens ts0 (as @ [image t]) (h @ ''#''))
              = hash (hashTokens us0 (as' @ [image u]) (h @ ''#''))"
          by (rule less.hyps[OF _ d]) (simp add: Cons)
        then show ?thesis using Cons us
          by (simp add: hashTokens_single[OF rc False] hashTokens_single[OF rc' nr])
      qed
    qed
  qed
qed

lemma lexer_quoted:
  assumes "computeHashAndExtractAddressesFromLexer pre = Inr p" and "stringContent quote body"
  shows "computeHashAndExtractAddressesFromLexer (pre @ quote # body @ quote # rest)
         = map_sum (\<lambda>e. e) (prepend (addresses p) (hash p @ quote # body @ [quote]))
             (computeHashAndExtractAddressesFromLexer rest)"
proof -
  let ?code = "pre @ quote # body @ quote # rest"
  let ?h = "hash p @ quote # body @ [quote]"
  have p: "scanCode pre 0 [] [] = Inr p"
    using assms(1) by (simp add: computeHashAndExtractAddressesFromLexer_def)
  have "scanCode ?code 0 [] [] = scanCode ?code (length pre) (addresses p) (hash p)"
    by (rule scanCode_prefix[OF _ p]) simp
  also have "\<dots> = scanCode ?code (length pre + length body + 2) (addresses p) ?h"
    by (rule scanCode_at_quote[where rest = rest]) (use assms(2) in simp_all)
  also have "\<dots> = scanCode ((pre @ quote # body @ [quote]) @ rest)
      (length (pre @ quote # body @ [quote]) + 0) (addresses p) ?h"
    by simp
  also have "\<dots> = scanCode rest 0 (addresses p) ?h" by (rule scanCode_shift)
  also have "\<dots> = map_sum (\<lambda>e. e) (prepend (addresses p) ?h) (scanCode rest 0 [] [])"
    by (rule scanCode_acc)
  finally show ?thesis by (simp add: computeHashAndExtractAddressesFromLexer_def)
qed

subsection \<open>Every text the scan gets through has an aligned token stream\<close>

lemma stringContent_join:
  "quote \<notin> set b1 \<Longrightarrow> last (prev # b1) = backslash \<Longrightarrow> stringContent quote b2
   \<Longrightarrow> stringContent prev (b1 @ quote # b2)"
  by (induction b1 arbitrary: prev) auto

lemma stringContent_plain:
  "quote \<notin> set b1 \<Longrightarrow> last (prev # b1) \<noteq> backslash \<Longrightarrow> stringContent prev b1"
  by (induction b1 arbitrary: prev) auto

lemma matchStringRegex_split:
  assumes "matchStringRegex (drop x code) = Some r"
  obtains b1 where "r = b1 @ [quote]" "quote \<notin> set b1"
    "drop x code = b1 @ quote # drop (x + length r) code"
proof -
  let ?b1 = "takeWhile (\<lambda>c. c \<noteq> quote) (drop x code)"
  from assms have q: "quote \<in> set (drop x code)" and r: "r = ?b1 @ [quote]"
    by (auto simp: matchStringRegex_def split: if_splits)
  have nq: "quote \<notin> set ?b1" by (auto dest: set_takeWhileD)
  from q have "dropWhile (\<lambda>c. c \<noteq> quote) (drop x code) \<noteq> []" by simp
  moreover have "hd (dropWhile (\<lambda>c. c \<noteq> quote) (drop x code)) = quote"
    using q hd_dropWhile[of "\<lambda>c. c \<noteq> quote" "drop x code"] by auto
  ultimately obtain tl' where dw: "dropWhile (\<lambda>c. c \<noteq> quote) (drop x code) = quote # tl'"
    by (cases "dropWhile (\<lambda>c. c \<noteq> quote) (drop x code)") auto
  have sp: "drop x code = ?b1 @ quote # tl'"
    using takeWhile_dropWhile_id[of "\<lambda>c. c \<noteq> quote" "drop x code"] dw by simp
  have "drop (x + length r) code = drop (length r) (drop x code)"
    by (simp add: add.commute)
  also have "\<dots> = tl'" by (subst sp) (simp add: r)
  finally have "drop x code = ?b1 @ quote # drop (x + length r) code" using sp by simp
  with r nq show ?thesis by (rule that)
qed

lemma scanString_result:
  "scanString code x h = Inr (x', h') \<Longrightarrow> 1 \<le> x
   \<Longrightarrow> \<exists>body. drop x code = body @ quote # drop x' code \<and> x' = x + length body + 1
         \<and> h' = h @ body @ [quote] \<and> stringContent (code ! (x - 1)) body"
proof (induction code x h rule: scanString.induct)
  case (1 code x h)
  from "1.prems"(1) obtain r where r: "matchStringRegex (drop x code) = Some r"
    by (subst (asm) scanString.simps) (auto split: option.splits)
  from r obtain b1 where b1: "r = b1 @ [quote]" "quote \<notin> set b1"
    and d: "drop x code = b1 @ quote # drop (x + length r) code"
    by (rule matchStringRegex_split)
  have b: "0 < length r" "x + length r \<le> length code"
    by (rule matchStringRegex_bounds[OF r])+
  have two: "2 \<le> x + length r" using b "1.prems"(2) by linarith
  have ins: "x + length r - 2 < length code" using b by linarith
  have lk: "code ! (x + length b1 - 1) = last (code ! (x - 1) # b1)"
    by (rule last_before[OF d "1.prems"(2)])
  have lk': "code ! (x + length r - 2) = last (code ! (x - 1) # b1)"
    using lk b1(1) by simp
  show ?case
  proof (cases "code ! (x + length r - 2) = backslash")
    case True
    with "1.prems"(1) r two ins
    have rec: "scanString code (x + length r) (h @ r) = Inr (x', h')"
      by (subst (asm) scanString.simps) (simp add: Let_def)
    have one: "1 \<le> x + length r" using two by linarith
    from "1.IH"[OF r refl refl _ rec one] two ins True
    obtain body2 where d2: "drop (x + length r) code = body2 @ quote # drop x' code"
      and x': "x' = x + length r + length body2 + 1"
      and h': "h' = (h @ r) @ body2 @ [quote]"
      and sc2: "stringContent (code ! (x + length r - 1)) body2" by auto
    have qa: "code ! (x + length r - 1) = quote"
      using nth_of_drop_prefix[of x code "b1 @ [quote]" "drop (x + length r) code" "length b1"] d b1(1)
      by simp
    have "stringContent (code ! (x - 1)) (b1 @ quote # body2)"
      by (rule stringContent_join[OF b1(2)]) (use lk' True sc2 qa in simp_all)
    moreover have "drop x code = (b1 @ quote # body2) @ quote # drop x' code"
      using d d2 by simp
    moreover have "x' = x + length (b1 @ quote # body2) + 1" using x' b1(1) by simp
    moreover have "h' = h @ (b1 @ quote # body2) @ [quote]" using h' b1(1) by simp
    ultimately show ?thesis by blast
  next
    case False
    with "1.prems"(1) r have res: "x' = x + length r" "h' = h @ r"
      by (subst (asm) scanString.simps, simp add: Let_def)+
    have "stringContent (code ! (x - 1)) b1"
      by (rule stringContent_plain[OF b1(2)]) (use lk' False in simp)
    moreover have "drop x code = b1 @ quote # drop x' code" using d res by simp
    moreover have "x' = x + length b1 + 1" using res b1(1) by simp
    moreover have "h' = h @ b1 @ [quote]" using res b1(1) by simp
    ultimately show ?thesis by blast
  qed
qed


lemma matchCellRegex_cases:
  assumes "matchCellRegex s = Some r"
  obtains (single) "matchCellPart s = Some r"
  | (range) c1 c2 where "matchCellPart s = Some c1" "r = c1 @ '':'' @ c2"
  using assms
  by (auto simp: matchCellRegex_def split: option.splits list.splits if_splits)

lemma scanTokens_not_startsRange: "\<not> startsRange (scanTokens code y)"
proof (cases "y < length code")
  case False
  then show ?thesis by (subst scanTokens.simps) (simp add: startsRange_def)
next
  case lt: True
  show ?thesis
  proof (cases "code ! y = quote")
    case True
    with lt show ?thesis
      by (subst scanTokens.simps)
         (auto simp: startsRange_def split: sum.splits list.splits)
  next
    case nq: False
    show ?thesis
    proof (cases "matchCellRegex (drop y code)")
      case None
      with lt nq show ?thesis
        by (subst scanTokens.simps) (auto simp: startsRange_def split: list.splits)
    next
      case (Some r)
      with lt nq show ?thesis
        by (subst scanTokens.simps)
           (auto simp: startsRange_def split: option.splits list.splits)
    qed
  qed
qed

lemma drop_split_prefix: "take (length r) (drop x code) = r \<Longrightarrow> drop x code = r @ drop (x + length r) code"
  by (metis add.commute append_take_drop_id drop_drop)

lemma scanTokens_aligned:
  "scanCode code x as h = Inr res
   \<Longrightarrow> lexerAligned (scanTokens code x) \<and> textOf (scanTokens code x) = drop x code"
proof (induction code x as h rule: scanCode.induct)
  case (1 code x as h)
  show ?case
  proof (cases "x < length code")
    case False
    then show ?thesis by (subst scanTokens.simps, subst (2) scanTokens.simps) (simp add: textOf_def)
  next
    case lt: True
    then have dx: "drop x code = code ! x # drop (x + 1) code"
      by (simp add: Cons_nth_drop_Suc)
    show ?thesis
    proof (cases "code ! x = quote")
      case q: True
      from "1.prems" lt q obtain x' h' where
        ss: "scanString code (x + 1) (h @ [code ! x]) = Inr (x', h')"
        and rest: "scanCode code x' as h' = Inr res"
        by (subst (asm) scanCode.simps) (auto split: sum.splits)
      from "1.IH"(1)[OF lt q ss refl rest]
      have ih: "lexerAligned (scanTokens code x')" "textOf (scanTokens code x') = drop x' code"
        by simp_all
      from ss obtain hh where s0: "scanString code (x + 1) [] = Inr (x', hh)"
        by (subst (asm) scanString_acc) (cases "scanString code (x + 1) []"; auto)
      then have s1: "scanString code (x + 1) [code ! x] = Inr (x', [code ! x] @ hh)"
        by (subst scanString_acc) simp
      from scanString_result[OF s1] q
      obtain body where d: "drop (x + 1) code = body @ quote # drop x' code"
        and img: "[code ! x] @ hh = [quote] @ body @ [quote]"
        and sc: "stringContent quote body" by auto
      let ?t = "\<lparr>tokenName = ''StringLiteral'', image = quote # body @ [quote]\<rparr>"
      have toks: "scanTokens code x = ?t # scanTokens code x'"
        using lt q s1 img by (subst scanTokens.simps) simp
      have lit: "isStringLiteral (image ?t)"
        using sc by (simp add: isStringLiteral_def)
      have "lexerAligned (?t # scanTokens code x')"
        using lit ih(1) by (simp add: lexerAligned_other)
      moreover have "textOf (?t # scanTokens code x') = drop x code"
        using ih(2) d dx q by (simp add: textOf_def)
      ultimately show ?thesis unfolding toks by simp
    next
      case nq: False
      show ?thesis
      proof (cases "matchCellRegex (drop x code)")
        case None
        with "1.prems" lt nq have rest: "scanCode code (x + 1) as (h @ [code ! x]) = Inr res"
          by (subst (asm) scanCode.simps) simp
        from "1.IH"(2)[OF lt nq None rest]
        have ih: "lexerAligned (scanTokens code (x + 1))"
          "textOf (scanTokens code (x + 1)) = drop (x + 1) code" by simp_all
        let ?t = "\<lparr>tokenName = ''Character'', image = [code ! x]\<rparr>"
        have toks: "scanTokens code x = ?t # scanTokens code (x + 1)"
          using lt nq None by (subst scanTokens.simps) simp
        have "copiedVerbatim (image ?t) (textOf (scanTokens code (x + 1)))"
          using nq None ih(2) dx by simp
        then have "lexerAligned (?t # scanTokens code (x + 1))"
          using ih(1) by (simp add: lexerAligned_other)
        moreover have "textOf (?t # scanTokens code (x + 1)) = drop x code"
          using ih(2) dx by (simp add: textOf_def)
        ultimately show ?thesis unfolding toks by simp
      next
        case (Some r)
        with "1.prems" lt nq have rest: "scanCode code (x + length r) (as @ [r]) (h @ ''#'') = Inr res"
          by (subst (asm) scanCode.simps) simp
        from "1.IH"(3)[OF lt nq Some rest]
        have ih: "lexerAligned (scanTokens code (x + length r))"
          "textOf (scanTokens code (x + length r)) = drop (x + length r) code" by simp_all
        have sp: "drop x code = r @ drop (x + length r) code"
          by (rule drop_split_prefix) (rule matchCellRegex_prefix[OF Some])
        have nr: "\<not> startsRange (scanTokens code (x + length r))"
          by (rule scanTokens_not_startsRange)
        from Some show ?thesis
        proof (cases rule: matchCellRegex_cases)
          case single
          let ?t = "\<lparr>tokenName = ''RelativeCell'', image = r\<rparr>"
          have toks: "scanTokens code x = ?t # scanTokens code (x + length r)"
            using lt nq Some single by (subst scanTokens.simps) simp
          have tx: "textOf (?t # scanTokens code (x + length r)) = drop x code"
            using ih(2) sp by (simp add: textOf_def)
          have "lexerAligned (?t # scanTokens code (x + length r))"
            using ih(1) Some tx by (simp add: lexerAligned_single[OF _ nr])
          with tx show ?thesis unfolding toks by simp
        next
          case (range c1 c2)
          let ?t = "\<lparr>tokenName = ''RelativeCell'', image = c1\<rparr>"
          let ?s = "\<lparr>tokenName = ''RangeSeparator'', image = '':''\<rparr>"
          let ?u = "\<lparr>tokenName = ''RelativeCell'', image = c2\<rparr>"
          have toks: "scanTokens code x = ?t # ?s # ?u # scanTokens code (x + length r)"
            using lt nq Some range by (subst scanTokens.simps) simp
          have tx: "textOf (?t # ?s # ?u # scanTokens code (x + length r)) = drop x code"
            using ih(2) sp range(2) by (simp add: textOf_def)
          have "lexerAligned (?t # ?s # ?u # scanTokens code (x + length r))"
            using ih(1) Some tx range(2) by (simp add: lexerAligned_range)
          with tx show ?thesis unfolding toks by simp
        qed
      qed
    qed
  qed
qed

lemma scanned_text_has_aligned_tokens:
  assumes "computeHashAndExtractAddressesFromLexer code = Inr r"
  shows "lexerAligned (scanTokens code 0)" and "textOf (scanTokens code 0) = code"
    and "computeHashAndExtractAddresses (scanTokens code 0) = r"
proof -
  from assms have s: "scanCode code 0 [] [] = Inr r"
    by (simp add: computeHashAndExtractAddressesFromLexer_def)
  from scanTokens_aligned[OF s] show al: "lexerAligned (scanTokens code 0)"
    and tx: "textOf (scanTokens code 0) = code" by simp_all
  from scanCode_aligned[OF al, of "[]" "[]"] s tx
  show "computeHashAndExtractAddresses (scanTokens code 0) = r"
    by (simp add: computeHashAndExtractAddresses_def)
qed

subsection \<open>The regular expressions on a well lexed token stream\<close>

lemma isLetter_latinLetter: "isLetter c = latinLetter c"
  by (cases c) (simp add: isLetter_def latinLetter_def Let_def; fastforce)

lemma isDigit_decimalDigit: "isDigit c = decimalDigit c"
  by (cases c) (simp add: isDigit_def decimalDigit_def Let_def; fastforce)

lemma isLetter_eq: "isLetter = latinLetter"
  by (rule ext) (rule isLetter_latinLetter)

lemma isDigit_eq: "isDigit = decimalDigit"
  by (rule ext) (rule isDigit_decimalDigit)

lemma digit_not_letter: "decimalDigit c \<Longrightarrow> \<not> latinLetter c"
  by (auto simp: decimalDigit_def latinLetter_def)

lemma takeWhile_digit_Nil: "(takeWhile decimalDigit s = []) = (\<not> digitStarts s)"
  by (cases s) (simp_all add: digitStarts_def)

lemma matchCellPart_None: "(matchCellPart s = None) = (\<not> cellNameStarts s)"
  by (simp add: matchCellPart_def Let_def cellNameStarts_def isLetter_eq isDigit_eq
      takeWhile_digit_Nil)

lemma matchCellRegex_None: "(matchCellRegex s = None) = (\<not> cellNameStarts s)"
  unfolding matchCellPart_None[symmetric]
  by (simp add: matchCellRegex_def split: option.splits list.splits)

lemma plainImage_copiedVerbatim: "plainImage img rest \<Longrightarrow> copiedVerbatim img rest"
  by (induction img) (simp_all add: matchCellRegex_None)

lemma matchCellPart_cellName:
  assumes c: "cellName c" and r: "\<not> digitStarts rest"
  shows "matchCellPart (c @ rest) = Some c"
proof -
  let ?ls = "takeWhile latinLetter c" and ?ds = "dropWhile latinLetter c"
  from c have ls: "?ls \<noteq> []" and ds: "?ds \<noteq> []" and dd: "list_all decimalDigit ?ds"
    by (simp_all add: cellName_def Let_def)
  from ds obtain d where d: "d \<in> set c" "\<not> latinLetter d"
    by (metis dropWhile_eq_Nil_conv)
  have t: "takeWhile latinLetter (c @ rest) = ?ls"
    using d by (rule takeWhile_append1)
  have dr: "dropWhile latinLetter (c @ rest) = ?ds @ rest"
    using d by (rule dropWhile_append1)
  from dd have "takeWhile decimalDigit (?ds @ rest) = ?ds @ takeWhile decimalDigit rest"
    by (simp add: takeWhile_append2 list_all_iff)
  with r have td: "takeWhile decimalDigit (?ds @ rest) = ?ds"
    by (simp add: takeWhile_digit_Nil)
  show ?thesis
    using ls ds by (simp add: matchCellPart_def Let_def isLetter_eq isDigit_eq t dr td)
qed

lemma cellName_length: "cellName c \<Longrightarrow> c \<noteq> []"
  by (auto simp: cellName_def Let_def)

lemma matchCellRegex_single:
  assumes c: "cellName c" and r: "\<not> digitStarts rest" and t: "\<not> rangeTailStarts rest"
  shows "matchCellRegex (c @ rest) = Some c"
proof (cases rest)
  case Nil
  with matchCellPart_cellName[OF c r] show ?thesis by (simp add: matchCellRegex_def)
next
  case (Cons x xs)
  show ?thesis
  proof (cases "x = CHR '':''")
    case True
    with t Cons have "matchCellPart xs = None"
      by (simp add: rangeTailStarts_def matchCellPart_None)
    with matchCellPart_cellName[OF c r] Cons show ?thesis by (simp add: matchCellRegex_def)
  next
    case False
    with matchCellPart_cellName[OF c r] Cons show ?thesis by (simp add: matchCellRegex_def)
  qed
qed

lemma colon_not_digit: "\<not> digitStarts (CHR '':'' # s)"
  by (simp add: digitStarts_def decimalDigit_def)

lemma matchCellRegex_range:
  assumes c: "cellName c" and c2: "cellName c2" and r: "\<not> digitStarts rest"
  shows "matchCellRegex (c @ '':'' @ c2 @ rest) = Some (c @ '':'' @ c2)"
proof -
  have "matchCellPart (c @ CHR '':'' # c2 @ rest) = Some c"
    by (rule matchCellPart_cellName[OF c colon_not_digit])
  moreover have "matchCellPart (c2 @ rest) = Some c2"
    by (rule matchCellPart_cellName[OF c2 r])
  ultimately show ?thesis by (simp add: matchCellRegex_def)
qed

lemma wellLexed_other:
  "tokenName t \<noteq> ''RelativeCell'' \<Longrightarrow>
   wellLexed (t # ts)
   = ((isStringLiteral (image t) \<or> plainImage (image t) (textOf ts)) \<and> wellLexed ts)"
  by (subst wellLexed.simps(2)) simp

lemma wellLexed_range:
  "tokenName t = ''RelativeCell'' \<Longrightarrow> tokenName t1 = ''RangeSeparator''
   \<Longrightarrow> tokenName t2 = ''RelativeCell''
   \<Longrightarrow> wellLexed (t # t1 # t2 # ts)
       = (cellName (image t) \<and> image t1 = '':'' \<and> cellName (image t2)
          \<and> \<not> digitStarts (textOf ts) \<and> wellLexed ts)"
  by (subst wellLexed.simps(2)) simp

lemma wellLexed_single:
  "tokenName t = ''RelativeCell'' \<Longrightarrow> \<not> startsRange ts
   \<Longrightarrow> wellLexed (t # ts)
       = (cellName (image t) \<and> \<not> digitStarts (textOf ts)
          \<and> \<not> rangeTailStarts (textOf ts) \<and> wellLexed ts)"
  by (subst wellLexed.simps(2)) (auto simp add: startsRange_def split: list.splits)

lemma wellLexed_lexerAligned: "wellLexed ts \<Longrightarrow> lexerAligned ts"
proof (induction "length ts" arbitrary: ts rule: less_induct)
  case less
  show ?case
  proof (cases ts)
    case Nil
    then show ?thesis by simp
  next
    case (Cons t ts0)
    have tx: "textOf (t # ts0) = image t @ textOf ts0" by (simp add: textOf_def)
    show ?thesis
    proof (cases "tokenName t = ''RelativeCell''")
      case False
      with less.prems Cons have v: "isStringLiteral (image t) \<or> plainImage (image t) (textOf ts0)"
        and wl: "wellLexed ts0" by (simp_all add: wellLexed_other)
      have "lexerAligned ts0" by (rule less.hyps[OF _ wl]) (simp add: Cons)
      with v False Cons show ?thesis
        by (auto simp add: lexerAligned_other dest: plainImage_copiedVerbatim)
    next
      case rc: True
      show ?thesis
      proof (cases "startsRange ts0")
        case True
        then obtain t1 t2 ts' where ts: "ts0 = t1 # t2 # ts'"
          and n: "tokenName t1 = ''RangeSeparator''" "tokenName t2 = ''RelativeCell''"
          by (rule startsRange_cases)
        from less.prems Cons ts have c: "cellName (image t)" and sep: "image t1 = '':''"
          and c2: "cellName (image t2)" and r: "\<not> digitStarts (textOf ts')"
          and wl: "wellLexed ts'"
          by (simp_all add: wellLexed_range[OF rc n])
        have al: "lexerAligned ts'" by (rule less.hyps[OF _ wl]) (simp add: Cons ts)
        have tx': "textOf (t # t1 # t2 # ts') = image t @ '':'' @ image t2 @ textOf ts'"
          by (simp add: textOf_def sep)
        show ?thesis
          unfolding Cons ts lexerAligned_range[OF rc n] tx'
          using sep al matchCellRegex_range[OF c c2 r] by simp
      next
        case False
        from less.prems Cons have c: "cellName (image t)" and r: "\<not> digitStarts (textOf ts0)"
          and rt: "\<not> rangeTailStarts (textOf ts0)" and wl: "wellLexed ts0"
          by (simp_all add: wellLexed_single[OF rc False])
        have al: "lexerAligned ts0" by (rule less.hyps[OF _ wl]) (simp add: Cons)
        show ?thesis
          unfolding Cons lexerAligned_single[OF rc False] tx
          using al matchCellRegex_single[OF c r rt] by simp
      qed
    qed
  qed
qed

subsection \<open>Every text the scan gets through has a well lexed token stream\<close>

lemma takeWhile_run_append:
  "\<forall>x \<in> set xs. P x \<Longrightarrow> takeWhile P (xs @ y # ys) = (if P y then xs @ takeWhile P (y # ys) else xs)"
  by (induction xs) simp_all

lemma dropWhile_run_append:
  "\<forall>x \<in> set xs. P x \<Longrightarrow> \<not> P y \<Longrightarrow> dropWhile P (xs @ y # ys) = y # ys"
  by (induction xs) simp_all

lemma drop_length_append3: "drop (length (a @ b)) (a @ b @ c) = c"
  by simp

lemma not_digitStarts_dropWhile: "\<not> digitStarts (dropWhile decimalDigit s)"
proof (cases "dropWhile decimalDigit s")
  case Nil
  show ?thesis unfolding digitStarts_def Nil by simp
next
  case (Cons x xs)
  from hd_dropWhile[of decimalDigit s] Cons have "\<not> decimalDigit x" by simp
  with Cons show ?thesis by (simp add: digitStarts_def)
qed

lemma matchCellPart_Some:
  assumes "matchCellPart s = Some c"
  shows "cellName c" and "\<not> digitStarts (drop (length c) s)"
proof -
  let ?l = "takeWhile latinLetter s" and ?d = "takeWhile decimalDigit (dropWhile latinLetter s)"
  from assms have c: "c = ?l @ ?d" and l: "?l \<noteq> []" and d: "?d \<noteq> []"
    by (auto simp: matchCellPart_def Let_def isLetter_eq isDigit_eq split: if_splits)
  from d obtain x xs where dx: "?d = x # xs" by (cases ?d) auto
  then have "x \<in> set ?d" by simp
  then have xd: "decimalDigit x" by (rule set_takeWhileD[THEN conjunct2])
  then have xl: "\<not> latinLetter x" by (rule digit_not_letter)
  have al: "\<forall>y \<in> set ?l. latinLetter y" by (auto dest: set_takeWhileD)
  have tl: "takeWhile latinLetter (?l @ ?d) = ?l"
    unfolding dx using takeWhile_run_append[OF al, of x xs] xl by simp
  have dl: "dropWhile latinLetter (?l @ ?d) = ?d"
    unfolding dx using dropWhile_run_append[OF al xl, of xs] by simp
  have "list_all decimalDigit ?d"
    by (auto simp add: list_all_iff dest: set_takeWhileD)
  with l d show "cellName c" unfolding c cellName_def Let_def tl dl by simp
  have s: "s = ?l @ ?d @ dropWhile decimalDigit (dropWhile latinLetter s)" by simp
  have "drop (length (?l @ ?d)) s = dropWhile decimalDigit (dropWhile latinLetter s)"
    by (subst (3) s) (rule drop_length_append3)
  with not_digitStarts_dropWhile[of "dropWhile latinLetter s"]
  show "\<not> digitStarts (drop (length c) s)" unfolding c by simp
qed

lemma matchCellRegex_shapes:
  assumes "matchCellRegex s = Some r"
  obtains (single) "cellName r" "\<not> digitStarts (drop (length r) s)"
      "\<not> rangeTailStarts (drop (length r) s)" "matchCellPart s = Some r"
  | (range) c1 c2 where "cellName c1" "cellName c2" "r = c1 @ '':'' @ c2"
      "\<not> digitStarts (drop (length r) s)" "matchCellPart s = Some c1"
proof -
  from assms obtain c1 where c1: "matchCellPart s = Some c1"
    by (auto simp: matchCellRegex_def split: option.splits)
  note n1 = matchCellPart_Some[OF c1]
  show ?thesis
  proof (cases "drop (length c1) s")
    case Nil
    with assms c1 have "r = c1" by (simp add: matchCellRegex_def)
    with n1 Nil c1 show ?thesis by (intro single) (simp_all add: rangeTailStarts_def)
  next
    case (Cons x rest)
    show ?thesis
    proof (cases "x = CHR '':''")
      case False
      with assms c1 Cons have "r = c1" by (simp add: matchCellRegex_def)
      with n1 Cons False c1 show ?thesis by (intro single) (simp_all add: rangeTailStarts_def)
    next
      case True
      show ?thesis
      proof (cases "matchCellPart rest")
        case None
        with assms c1 Cons True have "r = c1" by (simp add: matchCellRegex_def)
        moreover from None have "\<not> cellNameStarts rest" by (simp add: matchCellPart_None)
        ultimately show ?thesis using n1 Cons c1
          by (intro single) (simp_all add: rangeTailStarts_def)
      next
        case (Some c2)
        with assms c1 Cons True have r: "r = c1 @ '':'' @ c2" by (simp add: matchCellRegex_def)
        note n2 = matchCellPart_Some[OF Some]
        have "drop (length r) s = drop (length c2) (drop 1 (drop (length c1) s))"
          unfolding r by (simp add: add.commute)
        then have "drop (length r) s = drop (length c2) rest"
          unfolding Cons by simp
        with n2(2) have "\<not> digitStarts (drop (length r) s)" by simp
        with n1(1) n2(1) r c1 show ?thesis by (intro range)
      qed
    qed
  qed
qed


lemma scanTokens_wellLexed:
  "scanCode code x as h = Inr res \<Longrightarrow> wellLexed (scanTokens code x)"
proof (induction code x as h rule: scanCode.induct)
  case (1 code x as h)
  show ?case
  proof (cases "x < length code")
    case False
    then show ?thesis by (subst scanTokens.simps) simp
  next
    case lt: True
    then have dx: "drop x code = code ! x # drop (x + 1) code"
      by (simp add: Cons_nth_drop_Suc)
    show ?thesis
    proof (cases "code ! x = quote")
      case q: True
      from "1.prems" lt q obtain x' h' where
        ss: "scanString code (x + 1) (h @ [code ! x]) = Inr (x', h')"
        and rest: "scanCode code x' as h' = Inr res"
        by (subst (asm) scanCode.simps) (auto split: sum.splits)
      from "1.IH"(1)[OF lt q ss refl rest] have ih: "wellLexed (scanTokens code x')" .
      from ss obtain hh where s0: "scanString code (x + 1) [] = Inr (x', hh)"
        by (subst (asm) scanString_acc) (cases "scanString code (x + 1) []"; auto)
      then have s1: "scanString code (x + 1) [code ! x] = Inr (x', [code ! x] @ hh)"
        by (subst scanString_acc) simp
      from scanString_result[OF s1] q
      obtain body where img: "[code ! x] @ hh = [quote] @ body @ [quote]"
        and sc: "stringContent quote body" by auto
      let ?t = "\<lparr>tokenName = ''StringLiteral'', image = quote # body @ [quote]\<rparr>"
      have toks: "scanTokens code x = ?t # scanTokens code x'"
        using lt q s1 img by (subst scanTokens.simps) simp
      have lit: "isStringLiteral (image ?t)"
        using sc by (simp add: isStringLiteral_def)
      show ?thesis
        unfolding toks using lit ih by (simp add: wellLexed_other)
    next
      case nq: False
      show ?thesis
      proof (cases "matchCellRegex (drop x code)")
        case None
        with "1.prems" lt nq have rest: "scanCode code (x + 1) as (h @ [code ! x]) = Inr res"
          by (subst (asm) scanCode.simps) simp
        from "1.IH"(2)[OF lt nq None rest] have ih: "wellLexed (scanTokens code (x + 1))" .
        from scanTokens_aligned[OF rest]
        have tx: "textOf (scanTokens code (x + 1)) = drop (x + 1) code" by simp
        let ?t = "\<lparr>tokenName = ''Character'', image = [code ! x]\<rparr>"
        have toks: "scanTokens code x = ?t # scanTokens code (x + 1)"
          using lt nq None by (subst scanTokens.simps) simp
        from None dx have "\<not> cellNameStarts (code ! x # drop (x + 1) code)"
          by (simp add: matchCellRegex_None)
        then have "plainImage (image ?t) (textOf (scanTokens code (x + 1)))"
          using nq tx by simp
        then show ?thesis
          unfolding toks using ih by (simp add: wellLexed_other)
      next
        case (Some r)
        with "1.prems" lt nq have rest: "scanCode code (x + length r) (as @ [r]) (h @ ''#'') = Inr res"
          by (subst (asm) scanCode.simps) simp
        from "1.IH"(3)[OF lt nq Some rest] have ih: "wellLexed (scanTokens code (x + length r))" .
        from scanTokens_aligned[OF rest]
        have tx: "textOf (scanTokens code (x + length r)) = drop (x + length r) code" by simp
        have dd: "drop (length r) (drop x code) = drop (x + length r) code"
          by (simp add: add.commute)
        have nr: "\<not> startsRange (scanTokens code (x + length r))"
          by (rule scanTokens_not_startsRange)
        from Some show ?thesis
        proof (cases rule: matchCellRegex_shapes)
          case single
          let ?t = "\<lparr>tokenName = ''RelativeCell'', image = r\<rparr>"
          have toks: "scanTokens code x = ?t # scanTokens code (x + length r)"
            using lt nq Some single(4) by (subst scanTokens.simps) simp
          show ?thesis
            unfolding toks using ih single(1-3) tx dd
            by (simp add: wellLexed_single[OF _ nr])
        next
          case (range c1 c2)
          let ?t = "\<lparr>tokenName = ''RelativeCell'', image = c1\<rparr>"
          let ?s = "\<lparr>tokenName = ''RangeSeparator'', image = '':''\<rparr>"
          let ?u = "\<lparr>tokenName = ''RelativeCell'', image = c2\<rparr>"
          have toks: "scanTokens code x = ?t # ?s # ?u # scanTokens code (x + length r)"
            using lt nq Some range(3,5) by (subst scanTokens.simps) simp
          show ?thesis
            unfolding toks using ih range(1,2,4) tx dd
            by (simp add: wellLexed_range)
        qed
      qed
    qed
  qed
qed

lemma scanned_text_has_well_lexed_tokens:
  assumes "computeHashAndExtractAddressesFromLexer code = Inr r"
  shows "wellLexed (scanTokens code 0)" and "textOf (scanTokens code 0) = code"
proof -
  from assms have s: "scanCode code 0 [] [] = Inr r"
    by (simp add: computeHashAndExtractAddressesFromLexer_def)
  from scanTokens_wellLexed[OF s] show "wellLexed (scanTokens code 0)" .
  from scanTokens_aligned[OF s] show "textOf (scanTokens code 0) = code" by simp
qed

subsection \<open>The hash and the texts outside the relative references\<close>












subsection \<open>The cache\<close>

lemma scanString_error: "scanString code x h = Inl e \<Longrightarrow> e = UnexpectedParseError"
proof (induction code x h rule: scanString.induct)
  case (1 code x h)
  show ?case
  proof (cases "matchStringRegex (drop x code)")
    case None
    with "1.prems" show ?thesis by (subst (asm) scanString.simps) simp
  next
    case (Some r)
    show ?thesis
    proof (cases "2 \<le> x + length r \<and> x + length r - 2 < length code
        \<and> code ! (x + length r - 2) = backslash")
      case True
      with "1.prems" Some have "scanString code (x + length r) (h @ r) = Inl e"
        by (subst (asm) scanString.simps) (simp add: Let_def)
      from "1.IH"[OF Some refl refl True this] show ?thesis .
    next
      case False
      with "1.prems" Some show ?thesis
        by (subst (asm) scanString.simps) (auto simp add: Let_def)
    qed
  qed
qed

lemma scanCode_error: "scanCode code x as h = Inl e \<Longrightarrow> e = UnexpectedParseError"
proof (induction code x as h rule: scanCode.induct)
  case (1 code x as h)
  show ?case
  proof (cases "x < length code")
    case False
    with "1.prems" show ?thesis by (subst (asm) scanCode.simps) simp
  next
    case lt: True
    show ?thesis
    proof (cases "code ! x = quote")
      case q: True
      show ?thesis
      proof (cases "scanString code (x + 1) (h @ [code ! x])")
        case (Inl e')
        with "1.prems" lt q have "e = e'" by (subst (asm) scanCode.simps) simp
        with scanString_error[OF Inl] show ?thesis by simp
      next
        case (Inr r)
        obtain x' h' where r: "r = (x', h')" by (cases r)
        with "1.prems" lt q Inr have "scanCode code x' as h' = Inl e"
          by (subst (asm) scanCode.simps) simp
        from "1.IH"(1)[OF lt q Inr[unfolded r] refl this] show ?thesis .
      qed
    next
      case nq: False
      show ?thesis
      proof (cases "matchCellRegex (drop x code)")
        case None
        with "1.prems" lt nq have "scanCode code (x + 1) as (h @ [code ! x]) = Inl e"
          by (subst (asm) scanCode.simps) simp
        from "1.IH"(2)[OF lt nq None this] show ?thesis .
      next
        case (Some m)
        with "1.prems" lt nq have "scanCode code (x + length m) (as @ [m]) (h @ ''#'') = Inl e"
          by (subst (asm) scanCode.simps) simp
        from "1.IH"(3)[OF lt nq Some this] show ?thesis .
      qed
    qed
  qed
qed

lemma parse_unfold:
  "parse fp p text =
     (case templateHash fp (optimizationMode p) text of
        Inl e \<Rightarrow> Inl e
      | Inr ha \<Rightarrow>
          (case cache p (hash ha) of
             Some cachedAst \<Rightarrow>
               Inr (\<lparr>ast = cachedAst, parsedAddresses = addresses ha\<rparr>,
                    p\<lparr>statsCacheUsed := statsCacheUsed p + 1\<rparr>)
           | None \<Rightarrow>
               (let a = (if optimizationMode p = ''lexer'' then parseFormula fp text
                         else parseFromTokens fp (tokenizeFormula fp text))
                in Inr (\<lparr>ast = a, parsedAddresses = addresses ha\<rparr>,
                        p\<lparr>cache := (cache p)(hash ha \<mapsto> a)\<rparr>))))"
  by (simp add: parse_def templateHash_def Let_def split: sum.splits option.splits)

lemma parse_stores:
  assumes "templateHash fp (optimizationMode p) text = Inr ha"
  shows "\<exists>r p'. parse fp p text = Inr (r, p') \<and> cache p' (hash ha) = Some (ast r)
           \<and> parsedAddresses r = addresses ha
           \<and> optimizationMode p' = optimizationMode p
           \<and> (cache p (hash ha) = None \<longrightarrow>
                ast r = (if optimizationMode p = ''lexer'' then parseFormula fp text
                         else parseFromTokens fp (tokenizeFormula fp text)))"
  using assms by (cases "cache p (hash ha)") (simp_all add: parse_unfold Let_def)

lemma parse_hit:
  assumes "templateHash fp (optimizationMode p) text = Inr ha" and "cache p (hash ha) = Some a"
  shows "parse fp p text
         = Inr (\<lparr>ast = a, parsedAddresses = addresses ha\<rparr>,
                p\<lparr>statsCacheUsed := statsCacheUsed p + 1\<rparr>)"
  using assms by (simp add: parse_unfold)

lemma parse_twice:
  assumes h1: "templateHash fp (optimizationMode p) text1 = Inr ha1"
    and h2: "templateHash fp (optimizationMode p) text2 = Inr ha2"
    and eq: "hash ha1 = hash ha2"
  shows "\<exists>r1 p1. parse fp p text1 = Inr (r1, p1)
           \<and> cache p1 (hash ha1) = Some (ast r1)
           \<and> parse fp p1 text2
             = Inr (\<lparr>ast = ast r1, parsedAddresses = addresses ha2\<rparr>,
                    p1\<lparr>statsCacheUsed := statsCacheUsed p1 + 1\<rparr>)"
proof -
  from parse_stores[OF h1] obtain r1 p1 where p: "parse fp p text1 = Inr (r1, p1)"
    and c: "cache p1 (hash ha1) = Some (ast r1)"
    and m: "optimizationMode p1 = optimizationMode p" by blast
  from h2 m have h2': "templateHash fp (optimizationMode p1) text2 = Inr ha2" by simp
  from c eq have c': "cache p1 (hash ha2) = Some (ast r1)" by simp
  from parse_hit[OF h2' c'] p c show ?thesis by blast
qed

subsection \<open>The engine\<close>

lemma calls_call [simp]: "calls (call env eff e) = calls e @ [eff]"
  by (simp add: call_def)

lemma calls_recompute:
  "calls (recomputeIfDependencyGraphNeedsIt env e)
   = calls e @ [ClearRecentlyChangedVertices, PartialRun (verticesToRecompute env (recentlyChanged e))]"
  by (simp add: recomputeIfDependencyGraphNeedsIt_def Let_def truthy_def
      clearRecentlyChangedVertices_def partialRun_def)

lemma isMatrix_not_isFormula: "isMatrix text \<Longrightarrow> \<not> isFormula text"
  by (cases "text") (auto simp: isMatrix_def isFormula_def)

lemma isMatrix_not_empty: "isMatrix text \<Longrightarrow> text \<noteq> []"
  by (auto simp: isMatrix_def)

lemma ordinaryOrAbsent_branch:
  "ordinaryOrAbsent v \<Longrightarrow> \<not> instanceofMatrixVertex v
     \<and> (instanceofFormulaCellVertex v \<or> instanceofValueCellVertex v
        \<or> instanceofEmptyCellVertex v \<or> v = None)"
  by (cases v rule: ordinaryOrAbsent.cases) simp_all

section \<open>The claims about the caching parser\<close>

text \<open>
  Claim C1, as amended. Take a token stream that spells its text with nothing skipped and
  in which the relative cells are exactly the cell names of the text outside the quoted
  strings: a token named \<open>RelativeCell\<close> is letters followed by digits and is not followed
  by a digit, a relative range is written with a colon, a relative cell that begins no
  range is not followed by a colon and a cell name, and every other token is a complete
  quoted string or has no quote and no cell name beginning inside it. On the text of such
  a stream the lexer-free mode returns the hash and the addresses that the token-driven
  mode returns on the stream. The condition speaks of characters only, so the theorem
  says of \<open>cellRegex\<close> and \<open>stringRegex\<close> that they find these tokens and no others.
\<close>

theorem modes_agree_on_well_lexed_tokens:
  assumes "wellLexed ts"
  shows "computeHashAndExtractAddressesFromLexer (textOf ts)
         = Inr (computeHashAndExtractAddresses ts)"
  using scanCode_aligned[OF wellLexed_lexerAligned[OF assms], of "[]" "[]"]
  by (simp add: computeHashAndExtractAddressesFromLexer_def computeHashAndExtractAddresses_def)

theorem modes_agree_on_well_lexed_tokens_witness:
  "wellLexed
     [\<lparr>tokenName = ''EqualsOp'', image = ''=''\<rparr>,
      \<lparr>tokenName = ''ProcedureName'', image = ''SUM''\<rparr>,
      \<lparr>tokenName = ''LParen'', image = ''(''\<rparr>,
      \<lparr>tokenName = ''RelativeCell'', image = ''A1''\<rparr>,
      \<lparr>tokenName = ''RangeSeparator'', image = '':''\<rparr>,
      \<lparr>tokenName = ''RelativeCell'', image = ''B2''\<rparr>,
      \<lparr>tokenName = ''RParen'', image = '')''\<rparr>,
      \<lparr>tokenName = ''WhiteSpace'', image = '' ''\<rparr>,
      \<lparr>tokenName = ''PlusOp'', image = ''+''\<rparr>,
      \<lparr>tokenName = ''WhiteSpace'', image = '' ''\<rparr>,
      \<lparr>tokenName = ''StringLiteral'', image = [quote, CHR ''A'', CHR ''1'', quote]\<rparr>,
      \<lparr>tokenName = ''PlusOp'', image = ''+''\<rparr>,
      \<lparr>tokenName = ''RelativeCell'', image = ''C3''\<rparr>]
   \<and> computeHashAndExtractAddressesFromLexer
       (''=SUM(A1:B2) + '' @ [quote, CHR ''A'', CHR ''1'', quote] @ ''+C3'')
     = Inr \<lparr>addresses = [''A1:B2'', ''C3''],
            hash = ''=SUM(#) + '' @ [quote, CHR ''A'', CHR ''1'', quote] @ ''+#''\<rparr>"
proof -
  let ?ts = "[\<lparr>tokenName = ''EqualsOp'', image = ''=''\<rparr>,
      \<lparr>tokenName = ''ProcedureName'', image = ''SUM''\<rparr>,
      \<lparr>tokenName = ''LParen'', image = ''(''\<rparr>,
      \<lparr>tokenName = ''RelativeCell'', image = ''A1''\<rparr>,
      \<lparr>tokenName = ''RangeSeparator'', image = '':''\<rparr>,
      \<lparr>tokenName = ''RelativeCell'', image = ''B2''\<rparr>,
      \<lparr>tokenName = ''RParen'', image = '')''\<rparr>,
      \<lparr>tokenName = ''WhiteSpace'', image = '' ''\<rparr>,
      \<lparr>tokenName = ''PlusOp'', image = ''+''\<rparr>,
      \<lparr>tokenName = ''WhiteSpace'', image = '' ''\<rparr>,
      \<lparr>tokenName = ''StringLiteral'', image = [quote, CHR ''A'', CHR ''1'', quote]\<rparr>,
      \<lparr>tokenName = ''PlusOp'', image = ''+''\<rparr>,
      \<lparr>tokenName = ''RelativeCell'', image = ''C3''\<rparr>]"
  have wl: "wellLexed ?ts" by code_simp
  have tx: "textOf ?ts = ''=SUM(A1:B2) + '' @ [quote, CHR ''A'', CHR ''1'', quote] @ ''+C3''"
    by (simp add: textOf_def)
  have tk: "computeHashAndExtractAddresses ?ts
            = \<lparr>addresses = [''A1:B2'', ''C3''],
               hash = ''=SUM(#) + '' @ [quote, CHR ''A'', CHR ''1'', quote] @ ''+#''\<rparr>"
    by code_simp
  from modes_agree_on_well_lexed_tokens[OF wl] wl show ?thesis
    unfolding tx tk by blast
qed

text \<open>
  The claim as stated fails. On a text with a quoted string that is never closed the
  lexer-free mode throws and computes no hash, while the token-driven mode returns a hash
  for every token stream, here for one that spells the same text. The two modes also
  return different hashes where the token stream is not the one described above: for
  \<open>=A1 + 2\<close> and a stream without the two blanks, and for \<open>=LOG10(A1)\<close> and a stream in
  which \<open>LOG10\<close> is one token that is not a relative cell.
\<close>

theorem modes_differ_outside_well_lexed_tokens:
  "computeHashAndExtractAddressesFromLexer (''=A1&'' @ [quote, CHR ''x''])
     = Inl UnexpectedParseError
   \<and> computeHashAndExtractAddresses
       [\<lparr>tokenName = ''EqualsOp'', image = ''=''\<rparr>,
        \<lparr>tokenName = ''RelativeCell'', image = ''A1''\<rparr>,
        \<lparr>tokenName = ''ConcatenateOp'', image = ''&''\<rparr>,
        \<lparr>tokenName = ''Unknown'', image = [quote, CHR ''x'']\<rparr>]
     = \<lparr>addresses = [''A1''], hash = ''=#&'' @ [quote, CHR ''x'']\<rparr>
   \<and> computeHashAndExtractAddressesFromLexer ''=A1 + 2''
     = Inr \<lparr>addresses = [''A1''], hash = ''=# + 2''\<rparr>
   \<and> computeHashAndExtractAddresses
       [\<lparr>tokenName = ''EqualsOp'', image = ''=''\<rparr>,
        \<lparr>tokenName = ''RelativeCell'', image = ''A1''\<rparr>,
        \<lparr>tokenName = ''PlusOp'', image = ''+''\<rparr>,
        \<lparr>tokenName = ''NumberLiteral'', image = ''2''\<rparr>]
     = \<lparr>addresses = [''A1''], hash = ''=#+2''\<rparr>
   \<and> computeHashAndExtractAddressesFromLexer ''=LOG10(A1)''
     = Inr \<lparr>addresses = [''LOG10'', ''A1''], hash = ''=#(#)''\<rparr>
   \<and> computeHashAndExtractAddresses
       [\<lparr>tokenName = ''EqualsOp'', image = ''=''\<rparr>,
        \<lparr>tokenName = ''ProcedureName'', image = ''LOG10''\<rparr>,
        \<lparr>tokenName = ''LParen'', image = ''(''\<rparr>,
        \<lparr>tokenName = ''RelativeCell'', image = ''A1''\<rparr>,
        \<lparr>tokenName = ''RParen'', image = '')''\<rparr>]
     = \<lparr>addresses = [''A1''], hash = ''=LOG10(#)''\<rparr>"
proof -
  have a: "computeHashAndExtractAddressesFromLexer (''=A1&'' @ [quote, CHR ''x''])
     = Inl UnexpectedParseError"
    by code_simp
  have b: "computeHashAndExtractAddresses
       [\<lparr>tokenName = ''EqualsOp'', image = ''=''\<rparr>,
        \<lparr>tokenName = ''RelativeCell'', image = ''A1''\<rparr>,
        \<lparr>tokenName = ''ConcatenateOp'', image = ''&''\<rparr>,
        \<lparr>tokenName = ''Unknown'', image = [quote, CHR ''x'']\<rparr>]
     = \<lparr>addresses = [''A1''], hash = ''=#&'' @ [quote, CHR ''x'']\<rparr>"
    by code_simp
  have c: "computeHashAndExtractAddressesFromLexer ''=A1 + 2''
     = Inr \<lparr>addresses = [''A1''], hash = ''=# + 2''\<rparr>"
    by code_simp
  have d: "computeHashAndExtractAddresses
       [\<lparr>tokenName = ''EqualsOp'', image = ''=''\<rparr>,
        \<lparr>tokenName = ''RelativeCell'', image = ''A1''\<rparr>,
        \<lparr>tokenName = ''PlusOp'', image = ''+''\<rparr>,
        \<lparr>tokenName = ''NumberLiteral'', image = ''2''\<rparr>]
     = \<lparr>addresses = [''A1''], hash = ''=#+2''\<rparr>"
    by code_simp
  have e: "computeHashAndExtractAddressesFromLexer ''=LOG10(A1)''
     = Inr \<lparr>addresses = [''LOG10'', ''A1''], hash = ''=#(#)''\<rparr>"
    by code_simp
  have f: "computeHashAndExtractAddresses
       [\<lparr>tokenName = ''EqualsOp'', image = ''=''\<rparr>,
        \<lparr>tokenName = ''ProcedureName'', image = ''LOG10''\<rparr>,
        \<lparr>tokenName = ''LParen'', image = ''(''\<rparr>,
        \<lparr>tokenName = ''RelativeCell'', image = ''A1''\<rparr>,
        \<lparr>tokenName = ''RParen'', image = '')''\<rparr>]
     = \<lparr>addresses = [''A1''], hash = ''=LOG10(#)''\<rparr>"
    by code_simp
  from a b c d e f show ?thesis by (intro conjI)
qed




text \<open>
  Claim C3, as amended. \<open>parse\<close> throws exactly when the mode is \<open>lexer\<close> and the lexer-free
  hashing throws, and then the error is the unexpected parse error of a quoted string that
  is never closed. Whenever \<open>parse\<close> returns, the AST it returns is in the cache under the
  hash of the text; on a miss it is the AST the parser function returned, an error node
  like any other; and a later parse of a text with the same hash returns it as a cache
  hit, counted in \<open>statsCacheUsed\<close>. In the token-driven mode \<open>parse\<close> never throws.
\<close>

theorem parse_throws_only_in_lexer_mode_and_caches_every_ast:
  "(parse fp p text = Inl e)
     = (optimizationMode p = ''lexer'' \<and> computeHashAndExtractAddressesFromLexer text = Inl e)
   \<and> (parse fp p text = Inl e \<longrightarrow> e = UnexpectedParseError)
   \<and> (parse fp p text = Inr (r, p1) \<longrightarrow>
        (\<exists>ha. templateHash fp (optimizationMode p) text = Inr ha
           \<and> cache p1 (hash ha) = Some (ast r)
           \<and> (cache p (hash ha) = None \<longrightarrow>
                ast r = (if optimizationMode p = ''lexer'' then parseFormula fp text
                         else parseFromTokens fp (tokenizeFormula fp text)))
           \<and> (\<forall>text2 ha2.
                 templateHash fp (optimizationMode p) text2 = Inr ha2 \<and> hash ha2 = hash ha \<longrightarrow>
                 parse fp p1 text2
                 = Inr (\<lparr>ast = ast r, parsedAddresses = addresses ha2\<rparr>,
                        p1\<lparr>statsCacheUsed := statsCacheUsed p1 + 1\<rparr>))))"
proof (intro conjI impI)
  show a: "(parse fp p text = Inl e)
     = (optimizationMode p = ''lexer'' \<and> computeHashAndExtractAddressesFromLexer text = Inl e)"
    by (auto simp: parse_unfold templateHash_def Let_def split: sum.splits option.splits)
  show "e = UnexpectedParseError" if "parse fp p text = Inl e"
  proof -
    from that a have "scanCode text 0 [] [] = Inl e"
      by (simp add: computeHashAndExtractAddressesFromLexer_def)
    then show ?thesis by (rule scanCode_error)
  qed
  show "\<exists>ha. templateHash fp (optimizationMode p) text = Inr ha
           \<and> cache p1 (hash ha) = Some (ast r)
           \<and> (cache p (hash ha) = None \<longrightarrow>
                ast r = (if optimizationMode p = ''lexer'' then parseFormula fp text
                         else parseFromTokens fp (tokenizeFormula fp text)))
           \<and> (\<forall>text2 ha2.
                 templateHash fp (optimizationMode p) text2 = Inr ha2 \<and> hash ha2 = hash ha \<longrightarrow>
                 parse fp p1 text2
                 = Inr (\<lparr>ast = ast r, parsedAddresses = addresses ha2\<rparr>,
                        p1\<lparr>statsCacheUsed := statsCacheUsed p1 + 1\<rparr>))"
    if ok: "parse fp p text = Inr (r, p1)"
  proof -
    from ok obtain ha where ha: "templateHash fp (optimizationMode p) text = Inr ha"
      by (cases "templateHash fp (optimizationMode p) text") (simp_all add: parse_unfold)
    from parse_stores[OF ha] ok
    have c: "cache p1 (hash ha) = Some (ast r)"
      and m: "optimizationMode p1 = optimizationMode p"
      and f: "cache p (hash ha) = None \<longrightarrow>
                ast r = (if optimizationMode p = ''lexer'' then parseFormula fp text
                         else parseFromTokens fp (tokenizeFormula fp text))"
      by auto
    have hit: "parse fp p1 text2
                 = Inr (\<lparr>ast = ast r, parsedAddresses = addresses ha2\<rparr>,
                        p1\<lparr>statsCacheUsed := statsCacheUsed p1 + 1\<rparr>)"
      if "templateHash fp (optimizationMode p) text2 = Inr ha2" and "hash ha2 = hash ha"
      for text2 ha2
      by (rule parse_hit) (use that c m in simp_all)
    show ?thesis by (rule exI[of _ ha]) (use ha c f hit in simp)
  qed
qed

theorem parse_throws_only_in_lexer_mode_and_caches_every_ast_witness:
  "parse sampleFormulaParser (sampleParser ''parser'') ''=1+''
     = Inr (\<lparr>ast = ''Error(parse)'', parsedAddresses = []\<rparr>,
            \<lparr>cache = [''=1+'' \<mapsto> ''Error(parse)''], statsCacheUsed = 0, optimizationMode = ''parser''\<rparr>)
   \<and> parse sampleFormulaParser
        \<lparr>cache = [''=1+'' \<mapsto> ''Error(parse)''], statsCacheUsed = 0, optimizationMode = ''parser''\<rparr>
        ''=1+''
     = Inr (\<lparr>ast = ''Error(parse)'', parsedAddresses = []\<rparr>,
            \<lparr>cache = [''=1+'' \<mapsto> ''Error(parse)''], statsCacheUsed = 1, optimizationMode = ''parser''\<rparr>)"
proof -
  let ?p1 = "\<lparr>cache = [''=1+'' \<mapsto> ''Error(parse)''], statsCacheUsed = 0,
              optimizationMode = ''parser''\<rparr> :: string parserWithCaching"
  let ?r = "\<lparr>ast = ''Error(parse)'', parsedAddresses = []\<rparr> :: string parsed"
  have h: "templateHash sampleFormulaParser ''parser'' ''=1+''
           = Inr \<lparr>addresses = [], hash = ''=1+''\<rparr>"
    by (simp add: templateHash_def sampleFormulaParser_def sampleTokens_def
        computeHashAndExtractAddresses_def hashTokens.simps)
  have first: "parse sampleFormulaParser (sampleParser ''parser'') ''=1+'' = Inr (?r, ?p1)"
    by (simp add: parse_def sampleParser_def sampleFormulaParser_def sampleTokens_def
        computeHashAndExtractAddresses_def hashTokens.simps Let_def)
  have m: "optimizationMode (sampleParser ''parser'') = ''parser''"
    by (simp add: sampleParser_def)
  from parse_throws_only_in_lexer_mode_and_caches_every_ast
    [of sampleFormulaParser "sampleParser ''parser''" "''=1+''" UnexpectedParseError ?r ?p1]
  have "parse sampleFormulaParser (sampleParser ''parser'') ''=1+'' = Inr (?r, ?p1) \<longrightarrow>
        (\<exists>ha. templateHash sampleFormulaParser ''parser'' ''=1+'' = Inr ha
           \<and> (\<forall>text2 ha2.
                 templateHash sampleFormulaParser ''parser'' text2 = Inr ha2 \<and> hash ha2 = hash ha \<longrightarrow>
                 parse sampleFormulaParser ?p1 text2
                 = Inr (\<lparr>ast = ast ?r, parsedAddresses = addresses ha2\<rparr>,
                        ?p1\<lparr>statsCacheUsed := statsCacheUsed ?p1 + 1\<rparr>)))"
    unfolding m by blast
  with first obtain ha where ha: "templateHash sampleFormulaParser ''parser'' ''=1+'' = Inr ha"
    and hit: "\<And>text2 ha2. templateHash sampleFormulaParser ''parser'' text2 = Inr ha2
                \<Longrightarrow> hash ha2 = hash ha
                \<Longrightarrow> parse sampleFormulaParser ?p1 text2
                 = Inr (\<lparr>ast = ast ?r, parsedAddresses = addresses ha2\<rparr>,
                        ?p1\<lparr>statsCacheUsed := statsCacheUsed ?p1 + 1\<rparr>)"
    by blast
  from ha h have hav: "ha = \<lparr>addresses = [], hash = ''=1+''\<rparr>" by simp
  from hit[OF ha refl]
  have "parse sampleFormulaParser ?p1 ''=1+''
        = Inr (\<lparr>ast = ast ?r, parsedAddresses = []\<rparr>,
               ?p1\<lparr>statsCacheUsed := statsCacheUsed ?p1 + 1\<rparr>)"
    unfolding hav by simp
  with first show ?thesis by simp
qed

text \<open>
  The claim as stated fails: in the mode \<open>lexer\<close>, \<open>parse\<close> throws on a formula whose
  quoted string is never closed.
\<close>

theorem parse_throws_on_unterminated_string:
  "parse sampleFormulaParser (sampleParser ''lexer'') (''=CONCATENATE(A1,'' @ [quote] @ ''abc)'')
     = Inl UnexpectedParseError"
proof -
  have "computeHashAndExtractAddressesFromLexer (''=CONCATENATE(A1,'' @ [quote] @ ''abc)'')
        = Inl UnexpectedParseError"
    by code_simp
  then show ?thesis by (simp add: parse_def sampleParser_def)
qed

text \<open>
  Claim C4, as amended. For two formula texts that differ only in their relative-cell
  operands, parsing the first and then the second computes the same hash for both, and
  the second parse is a cache hit: it returns the template AST the cache holds for the
  first and increments \<open>statsCacheUsed\<close>. The two texts are given by their token streams:
  the streams the tokenizer returns in the token-driven mode, and, in the mode \<open>lexer\<close>,
  streams aligned with the lexer-free scan, which every quoted string of the text being
  closed makes possible.
\<close>

theorem hash_stability:
  assumes "differOnlyInRelativeCells ts1 ts2"
    and "if optimizationMode p = ''lexer''
         then text1 = textOf ts1 \<and> text2 = textOf ts2 \<and> lexerAligned ts1 \<and> lexerAligned ts2
         else tokenizeFormula fp text1 = ts1 \<and> tokenizeFormula fp text2 = ts2"
  shows "\<exists>ha1 ha2 r1 p1.
           templateHash fp (optimizationMode p) text1 = Inr ha1
         \<and> templateHash fp (optimizationMode p) text2 = Inr ha2
         \<and> hash ha1 = hash ha2
         \<and> parse fp p text1 = Inr (r1, p1)
         \<and> cache p1 (hash ha1) = Some (ast r1)
         \<and> parse fp p1 text2
           = Inr (\<lparr>ast = ast r1, parsedAddresses = addresses ha2\<rparr>,
                  p1\<lparr>statsCacheUsed := statsCacheUsed p1 + 1\<rparr>)"
proof -
  let ?ha1 = "computeHashAndExtractAddresses ts1" and ?ha2 = "computeHashAndExtractAddresses ts2"
  have eq: "hash ?ha1 = hash ?ha2"
    unfolding computeHashAndExtractAddresses_def
    by (rule hashTokens_differOnly[OF assms(1)])
  have h1: "templateHash fp (optimizationMode p) text1 = Inr ?ha1"
    and h2: "templateHash fp (optimizationMode p) text2 = Inr ?ha2"
  proof -
    show "templateHash fp (optimizationMode p) text1 = Inr ?ha1"
    proof (cases "optimizationMode p = ''lexer''")
      case True
      with assms(2) have "text1 = textOf ts1" "lexerAligned ts1" by simp_all
      with True scanCode_aligned[of ts1 "[]" "[]"] show ?thesis
        by (simp add: templateHash_def computeHashAndExtractAddressesFromLexer_def
            computeHashAndExtractAddresses_def)
    next
      case False
      with assms(2) show ?thesis by (simp add: templateHash_def)
    qed
    show "templateHash fp (optimizationMode p) text2 = Inr ?ha2"
    proof (cases "optimizationMode p = ''lexer''")
      case True
      with assms(2) have "text2 = textOf ts2" "lexerAligned ts2" by simp_all
      with True scanCode_aligned[of ts2 "[]" "[]"] show ?thesis
        by (simp add: templateHash_def computeHashAndExtractAddressesFromLexer_def
            computeHashAndExtractAddresses_def)
    next
      case False
      with assms(2) show ?thesis by (simp add: templateHash_def)
    qed
  qed
  from parse_twice[OF h1 h2 eq] h1 h2 eq show ?thesis by blast
qed

theorem hash_stability_witness:
  "differOnlyInRelativeCells (sampleTokens ''=A+1'') (sampleTokens ''=B+1'')
   \<and> tokenizeFormula sampleFormulaParser ''=A+1'' = sampleTokens ''=A+1''
   \<and> tokenizeFormula sampleFormulaParser ''=B+1'' = sampleTokens ''=B+1''
   \<and> (\<exists>ha1 ha2 r1 p1.
           templateHash sampleFormulaParser ''parser'' ''=A+1'' = Inr ha1
         \<and> templateHash sampleFormulaParser ''parser'' ''=B+1'' = Inr ha2
         \<and> hash ha1 = hash ha2
         \<and> parse sampleFormulaParser (sampleParser ''parser'') ''=A+1'' = Inr (r1, p1)
         \<and> cache p1 (hash ha1) = Some (ast r1)
         \<and> parse sampleFormulaParser p1 ''=B+1''
           = Inr (\<lparr>ast = ast r1, parsedAddresses = addresses ha2\<rparr>,
                  p1\<lparr>statsCacheUsed := statsCacheUsed p1 + 1\<rparr>))
   \<and> differOnlyInRelativeCells
        [\<lparr>tokenName = ''EqualsOp'', image = ''=''\<rparr>, \<lparr>tokenName = ''RelativeCell'', image = ''A1''\<rparr>,
         \<lparr>tokenName = ''PlusOp'', image = ''+''\<rparr>, \<lparr>tokenName = ''NumberLiteral'', image = ''1''\<rparr>]
        [\<lparr>tokenName = ''EqualsOp'', image = ''=''\<rparr>, \<lparr>tokenName = ''RelativeCell'', image = ''B22''\<rparr>,
         \<lparr>tokenName = ''PlusOp'', image = ''+''\<rparr>, \<lparr>tokenName = ''NumberLiteral'', image = ''1''\<rparr>]
   \<and> (\<exists>ha1 ha2 r1 p1.
           templateHash sampleFormulaParser ''lexer'' ''=A1+1'' = Inr ha1
         \<and> templateHash sampleFormulaParser ''lexer'' ''=B22+1'' = Inr ha2
         \<and> hash ha1 = hash ha2
         \<and> parse sampleFormulaParser (sampleParser ''lexer'') ''=A1+1'' = Inr (r1, p1)
         \<and> cache p1 (hash ha1) = Some (ast r1)
         \<and> parse sampleFormulaParser p1 ''=B22+1''
           = Inr (\<lparr>ast = ast r1, parsedAddresses = addresses ha2\<rparr>,
                  p1\<lparr>statsCacheUsed := statsCacheUsed p1 + 1\<rparr>))"
proof -
  let ?t1 = "[\<lparr>tokenName = ''EqualsOp'', image = ''=''\<rparr>, \<lparr>tokenName = ''RelativeCell'', image = ''A1''\<rparr>,
         \<lparr>tokenName = ''PlusOp'', image = ''+''\<rparr>, \<lparr>tokenName = ''NumberLiteral'', image = ''1''\<rparr>]"
  let ?t2 = "[\<lparr>tokenName = ''EqualsOp'', image = ''=''\<rparr>, \<lparr>tokenName = ''RelativeCell'', image = ''B22''\<rparr>,
         \<lparr>tokenName = ''PlusOp'', image = ''+''\<rparr>, \<lparr>tokenName = ''NumberLiteral'', image = ''1''\<rparr>]"
  have mp: "optimizationMode (sampleParser ''parser'') = ''parser''"
    and ml: "optimizationMode (sampleParser ''lexer'') = ''lexer''"
    by (simp_all add: sampleParser_def)
  have d1: "differOnlyInRelativeCells (sampleTokens ''=A+1'') (sampleTokens ''=B+1'')"
    by (simp add: differOnlyInRelativeCells_def sampleTokens_def)
  have k1: "tokenizeFormula sampleFormulaParser ''=A+1'' = sampleTokens ''=A+1''"
    and k2: "tokenizeFormula sampleFormulaParser ''=B+1'' = sampleTokens ''=B+1''"
    by (simp_all add: sampleFormulaParser_def)
  have a: "if optimizationMode (sampleParser ''parser'') = ''lexer''
         then ''=A+1'' = textOf (sampleTokens ''=A+1'') \<and> ''=B+1'' = textOf (sampleTokens ''=B+1'')
              \<and> lexerAligned (sampleTokens ''=A+1'') \<and> lexerAligned (sampleTokens ''=B+1'')
         else tokenizeFormula sampleFormulaParser ''=A+1'' = sampleTokens ''=A+1''
              \<and> tokenizeFormula sampleFormulaParser ''=B+1'' = sampleTokens ''=B+1''"
    using k1 k2 by (simp add: mp)
  have d2: "differOnlyInRelativeCells ?t1 ?t2"
    by (simp add: differOnlyInRelativeCells_def)
  have al1: "lexerAligned ?t1" and al2: "lexerAligned ?t2" by code_simp+
  have b: "if optimizationMode (sampleParser ''lexer'') = ''lexer''
         then ''=A1+1'' = textOf ?t1 \<and> ''=B22+1'' = textOf ?t2
              \<and> lexerAligned ?t1 \<and> lexerAligned ?t2
         else tokenizeFormula sampleFormulaParser ''=A1+1'' = ?t1
              \<and> tokenizeFormula sampleFormulaParser ''=B22+1'' = ?t2"
    using al1 al2 by (simp add: ml textOf_def)
  from hash_stability[OF d1 a] hash_stability[OF d2 b] d1 d2 k1 k2
  show ?thesis unfolding mp ml by blast
qed

text \<open>
  The claim as stated fails in the mode \<open>lexer\<close>: \<open>=A1&'x\<close> and \<open>=B2&'x\<close> differ only in
  their relative-cell operand, and the parse of the first throws, so that nothing is
  cached and nothing is returned.
\<close>

theorem hash_stability_fails_on_unterminated_string:
  "differOnlyInRelativeCells
     [\<lparr>tokenName = ''EqualsOp'', image = ''=''\<rparr>, \<lparr>tokenName = ''RelativeCell'', image = ''A1''\<rparr>,
      \<lparr>tokenName = ''ConcatenateOp'', image = ''&''\<rparr>,
      \<lparr>tokenName = ''Unknown'', image = [quote, CHR ''x'']\<rparr>]
     [\<lparr>tokenName = ''EqualsOp'', image = ''=''\<rparr>, \<lparr>tokenName = ''RelativeCell'', image = ''B2''\<rparr>,
      \<lparr>tokenName = ''ConcatenateOp'', image = ''&''\<rparr>,
      \<lparr>tokenName = ''Unknown'', image = [quote, CHR ''x'']\<rparr>]
   \<and> parse sampleFormulaParser (sampleParser ''lexer'') (''=A1&'' @ [quote, CHR ''x''])
     = Inl UnexpectedParseError
   \<and> parse sampleFormulaParser (sampleParser ''lexer'') (''=B2&'' @ [quote, CHR ''x''])
     = Inl UnexpectedParseError"
proof -
  have d: "differOnlyInRelativeCells
     [\<lparr>tokenName = ''EqualsOp'', image = ''=''\<rparr>, \<lparr>tokenName = ''RelativeCell'', image = ''A1''\<rparr>,
      \<lparr>tokenName = ''ConcatenateOp'', image = ''&''\<rparr>,
      \<lparr>tokenName = ''Unknown'', image = [quote, CHR ''x'']\<rparr>]
     [\<lparr>tokenName = ''EqualsOp'', image = ''=''\<rparr>, \<lparr>tokenName = ''RelativeCell'', image = ''B2''\<rparr>,
      \<lparr>tokenName = ''ConcatenateOp'', image = ''&''\<rparr>,
      \<lparr>tokenName = ''Unknown'', image = [quote, CHR ''x'']\<rparr>]"
    by (simp add: differOnlyInRelativeCells_def)
  have h1: "computeHashAndExtractAddressesFromLexer (''=A1&'' @ [quote, CHR ''x''])
            = Inl UnexpectedParseError"
    and h2: "computeHashAndExtractAddressesFromLexer (''=B2&'' @ [quote, CHR ''x''])
            = Inl UnexpectedParseError"
    by code_simp+
  from d h1 h2 show ?thesis by (simp add: parse_def sampleParser_def)
qed

text \<open>
  Claim C9. In the lexer-free mode, a quoted string goes into the hash character for
  character, quotes included, and contributes no address, whatever it contains; a quote
  that follows a backslash does not end it, the string ends at the first quote that does
  not follow a backslash. For every text made of a part the scan gets through, a quoted
  string with such a content and a rest, the result is the result of the first part,
  then the quoted string itself, then the result of the rest.
\<close>

theorem quoted_string_copied_verbatim:
  assumes "computeHashAndExtractAddressesFromLexer pre = Inr p" and "stringContent quote body"
  shows "computeHashAndExtractAddressesFromLexer (pre @ quote # body @ quote # rest)
         = (case computeHashAndExtractAddressesFromLexer rest of
              Inl e \<Rightarrow> Inl e
            | Inr r \<Rightarrow> Inr \<lparr>addresses = addresses p @ addresses r,
                            hash = hash p @ quote # body @ quote # hash r\<rparr>)"
  using lexer_quoted[OF assms, of rest]
  by (cases "computeHashAndExtractAddressesFromLexer rest") (simp_all add: prepend_def)

theorem quoted_string_copied_verbatim_witness:
  "computeHashAndExtractAddressesFromLexer ''=A1&'' = Inr \<lparr>addresses = [''A1''], hash = ''=#&''\<rparr>
   \<and> stringContent quote [CHR ''B'', CHR ''2'', backslash, quote, CHR ''C'', CHR ''3'']
   \<and> computeHashAndExtractAddressesFromLexer
        (''=A1&'' @ quote # [CHR ''B'', CHR ''2'', backslash, quote, CHR ''C'', CHR ''3'']
           @ quote # ''&D4'')
     = Inr \<lparr>addresses = [''A1'', ''D4''],
            hash = ''=#&'' @ quote # [CHR ''B'', CHR ''2'', backslash, quote, CHR ''C'', CHR ''3'']
                     @ quote # ''&#''\<rparr>"
proof -
  have h1: "computeHashAndExtractAddressesFromLexer ''=A1&''
            = Inr \<lparr>addresses = [''A1''], hash = ''=#&''\<rparr>"
    by code_simp
  have h2: "stringContent quote [CHR ''B'', CHR ''2'', backslash, quote, CHR ''C'', CHR ''3'']"
    by code_simp
  have h3: "computeHashAndExtractAddressesFromLexer ''&D4''
            = Inr \<lparr>addresses = [''D4''], hash = ''&#''\<rparr>"
    by code_simp
  have "computeHashAndExtractAddressesFromLexer
        (''=A1&'' @ quote # [CHR ''B'', CHR ''2'', backslash, quote, CHR ''C'', CHR ''3'']
           @ quote # ''&D4'')
     = Inr \<lparr>addresses = [''A1'', ''D4''],
            hash = ''=#&'' @ quote # [CHR ''B'', CHR ''2'', backslash, quote, CHR ''C'', CHR ''3'']
                     @ quote # ''&#''\<rparr>"
    unfolding quoted_string_copied_verbatim[OF h1 h2] h3 by simp
  with h1 h2 show ?thesis by blast
qed

section \<open>The claims about the engine\<close>

text \<open>
  Claim C5, as amended. On an address whose vertex is a formula, value or empty vertex,
  or that has none: a string beginning with \<open>=\<close> is parsed and set as the formula of the
  cell; a string of the form \<open>{=...}\<close> has its inner formula parsed and, when
  \<open>buildMatrixVertex\<close> returns a matrix vertex with a size, that vertex is added as a new
  matrix vertex with its dependencies and recomputed, and otherwise the call throws after
  the parse and installs nothing; the empty string removes the old value from the column
  index and sets the cell empty; any other string is set as the value of the cell, as a
  number when \<open>Number\<close> of it is not \<open>NaN\<close> and as a string otherwise. The three ordinary
  cases end with the recomputation step.
\<close>

theorem setCellContent_ingestion:
  assumes "ordinaryOrAbsent (getCell env address)"
  shows "(isFormula content \<longrightarrow>
            setCellContent env e address content
            = (let r = parserParse env content address
               in (None, recomputeIfDependencyGraphNeedsIt env
                    (call env (SetFormulaToCell address (resultAst r)
                         (AbsolutizeDependencies (dependencies r) address)
                         (hasVolatileFunction r) (hasStructuralChangeFunction r))
                       (call env (ParserParse content address) e)))))
       \<and> (isMatrix content \<longrightarrow>
            setCellContent env e address content
            = (let inner = substr content 1 (length content - 2);
                   r = parserParse env inner address;
                   e1 = call env (ParserParse inner address) e
               in case buildMatrixVertex env (resultAst r) address of
                    (MatrixVertex i f, Some sz) \<Rightarrow>
                      (None, partialRun [MatrixVertex i f]
                         (call env (ProcessCellDependencies
                              (AbsolutizeDependencies (dependencies r) address) (MatrixVertex i f))
                            (call env (AddNewMatrixVertex (MatrixVertex i f)) e1)))
                  | _ \<Rightarrow> (Some MatrixNotProperlyConstructed, e1)))
       \<and> (content = [] \<longrightarrow>
            setCellContent env e address content
            = (None, recomputeIfDependencyGraphNeedsIt env
                 (call env (SetCellEmpty address)
                    (call env (ColumnIndexRemove (getCellValue env address) address) e))))
       \<and> (\<not> isFormula content \<and> \<not> isMatrix content \<and> content \<noteq> [] \<longrightarrow>
            setCellContent env e address content
            = (let newValue = (case jsNumber env content of
                                 Some n \<Rightarrow> NumberValue n
                               | None \<Rightarrow> StringValue content)
               in (None, recomputeIfDependencyGraphNeedsIt env
                    (call env (ColumnIndexChange (getCellValue env address) newValue address)
                       (call env (SetValueToCell address newValue) e)))))"
proof -
  note b = ordinaryOrAbsent_branch[OF assms]
  from b have nm: "\<not> instanceofMatrixVertex (getCell env address)" by simp
  from b have ord: "instanceofFormulaCellVertex (getCell env address)
      \<or> instanceofValueCellVertex (getCell env address)
      \<or> instanceofEmptyCellVertex (getCell env address) \<or> getCell env address = None" by simp
  have f: "isFormula content \<Longrightarrow>
            setCellContent env e address content
            = (let r = parserParse env content address
               in (None, recomputeIfDependencyGraphNeedsIt env
                    (call env (SetFormulaToCell address (resultAst r)
                         (AbsolutizeDependencies (dependencies r) address)
                         (hasVolatileFunction r) (hasStructuralChangeFunction r))
                       (call env (ParserParse content address) e))))"
  proof -
    assume a: "isFormula content"
    then have "\<not> isMatrix content" using isMatrix_not_isFormula by blast
    with a nm ord show ?thesis
      by (simp add: setCellContent_def recomputeIfDependencyGraphNeedsIt_def Let_def)
  qed
  have m: "isMatrix content \<Longrightarrow>
            setCellContent env e address content
            = (let inner = substr content 1 (length content - 2);
                   r = parserParse env inner address;
                   e1 = call env (ParserParse inner address) e
               in case buildMatrixVertex env (resultAst r) address of
                    (MatrixVertex i f, Some sz) \<Rightarrow>
                      (None, partialRun [MatrixVertex i f]
                         (call env (ProcessCellDependencies
                              (AbsolutizeDependencies (dependencies r) address) (MatrixVertex i f))
                            (call env (AddNewMatrixVertex (MatrixVertex i f)) e1)))
                  | _ \<Rightarrow> (Some MatrixNotProperlyConstructed, e1))"
    using nm
    by (simp add: setCellContent_def Let_def truthy_def
        split: prod.splits vertex.splits option.splits)
  have em: "content = [] \<Longrightarrow>
            setCellContent env e address content
            = (None, recomputeIfDependencyGraphNeedsIt env
                 (call env (SetCellEmpty address)
                    (call env (ColumnIndexRemove (getCellValue env address) address) e)))"
  proof -
    assume a: "content = []"
    then have "\<not> isMatrix content" "\<not> isFormula content"
      by (simp_all add: isMatrix_def isFormula_def)
    with a nm ord show ?thesis
      by (simp add: setCellContent_def recomputeIfDependencyGraphNeedsIt_def Let_def)
  qed
  have v: "\<not> isFormula content \<and> \<not> isMatrix content \<and> content \<noteq> [] \<Longrightarrow>
            setCellContent env e address content
            = (let newValue = (case jsNumber env content of
                                 Some n \<Rightarrow> NumberValue n
                               | None \<Rightarrow> StringValue content)
               in (None, recomputeIfDependencyGraphNeedsIt env
                    (call env (ColumnIndexChange (getCellValue env address) newValue address)
                       (call env (SetValueToCell address newValue) e))))"
    using nm ord
    by (cases "jsNumber env content")
       (simp_all add: setCellContent_def recomputeIfDependencyGraphNeedsIt_def Let_def)
  from f m em v show ?thesis by blast
qed

theorem setCellContent_ingestion_witness:
  "ordinaryOrAbsent (getCell sampleCollaborators \<lparr>sheet = 0, col = 0, row = 0\<rparr>)
   \<and> isFormula ''=A1+1''
   \<and> setCellContent sampleCollaborators emptyEngine \<lparr>sheet = 0, col = 0, row = 0\<rparr> ''=A1+1''
     = (None, \<lparr>recentlyChanged = [],
               calls = [ParserParse ''=A1+1'' \<lparr>sheet = 0, col = 0, row = 0\<rparr>,
                        SetFormulaToCell \<lparr>sheet = 0, col = 0, row = 0\<rparr> ''=A1+1''
                          (AbsolutizeDependencies [] \<lparr>sheet = 0, col = 0, row = 0\<rparr>) False False,
                        ClearRecentlyChangedVertices,
                        PartialRun [FormulaCellVertex 2]]\<rparr>)
   \<and> \<not> isFormula ''42'' \<and> \<not> isMatrix ''42''
   \<and> setCellContent sampleCollaborators emptyEngine \<lparr>sheet = 0, col = 0, row = 0\<rparr> ''42''
     = (None, \<lparr>recentlyChanged = [],
               calls = [SetValueToCell \<lparr>sheet = 0, col = 0, row = 0\<rparr> (NumberValue 42),
                        ColumnIndexChange (StringValue ''old'') (NumberValue 42)
                          \<lparr>sheet = 0, col = 0, row = 0\<rparr>,
                        ClearRecentlyChangedVertices,
                        PartialRun [ValueCellVertex 1]]\<rparr>)"
proof -
  let ?a = "\<lparr>sheet = 0, col = 0, row = 0\<rparr>"
  have o: "ordinaryOrAbsent (getCell sampleCollaborators ?a)"
    by (simp add: sampleCollaborators_def)
  have f: "isFormula ''=A1+1''" and nf: "\<not> isFormula ''42''" and nm: "\<not> isMatrix ''42''"
    by (simp_all add: isFormula_def isMatrix_def)
  note t = setCellContent_ingestion[OF o]
  have r1: "setCellContent sampleCollaborators emptyEngine ?a ''=A1+1''
     = (None, \<lparr>recentlyChanged = [],
               calls = [ParserParse ''=A1+1'' ?a,
                        SetFormulaToCell ?a ''=A1+1'' (AbsolutizeDependencies [] ?a) False False,
                        ClearRecentlyChangedVertices,
                        PartialRun [FormulaCellVertex 2]]\<rparr>)"
    using t[of "''=A1+1''" emptyEngine, THEN conjunct1] f
    by (simp add: Let_def recomputeIfDependencyGraphNeedsIt_def call_def truthy_def
        clearRecentlyChangedVertices_def partialRun_def sampleCollaborators_def emptyEngine_def)
  have r2: "setCellContent sampleCollaborators emptyEngine ?a ''42''
     = (None, \<lparr>recentlyChanged = [],
               calls = [SetValueToCell ?a (NumberValue 42),
                        ColumnIndexChange (StringValue ''old'') (NumberValue 42) ?a,
                        ClearRecentlyChangedVertices,
                        PartialRun [ValueCellVertex 1]]\<rparr>)"
    using t[of "''42''" emptyEngine, THEN conjunct2, THEN conjunct2, THEN conjunct2] nf nm
    by (simp add: Let_def recomputeIfDependencyGraphNeedsIt_def call_def truthy_def
        clearRecentlyChangedVertices_def partialRun_def sampleCollaborators_def emptyEngine_def)
  from o f nf nm r1 r2 show ?thesis by blast
qed

text \<open>
  The claim as stated fails: a string of the form \<open>{=...}\<close> for which \<open>buildMatrixVertex\<close>
  does not return a matrix vertex with a size is not installed; the call throws after the
  parse.
\<close>

theorem array_formula_not_built_is_thrown:
  "isMatrix ''{=1+1}''
   \<and> getCell sampleCollaborators \<lparr>sheet = 0, col = 0, row = 0\<rparr> = None
   \<and> setCellContent sampleCollaborators emptyEngine \<lparr>sheet = 0, col = 0, row = 0\<rparr> ''{=1+1}''
     = (Some MatrixNotProperlyConstructed,
        \<lparr>recentlyChanged = [], calls = [ParserParse ''=1+1'' \<lparr>sheet = 0, col = 0, row = 0\<rparr>]\<rparr>)"
  by (simp add: setCellContent_def Let_def isMatrix_def substr_def call_def
      sampleCollaborators_def emptyEngine_def)

text \<open>
  Claim C6, as amended. On a cell owned by a numeric (non-formula) matrix vertex,
  \<open>setCellContent\<close> with a string whose \<open>Number\<close> is not \<open>NaN\<close> updates the matrix in place
  through \<open>setMatrixCellValue\<close> and recomputes from that vertex, which is not replaced; with
  any other content, a string or a formula, it throws the illegal-operation error and
  changes nothing.
\<close>

theorem setCellContent_numeric_matrix:
  assumes "getCell env address = Some (MatrixVertex i False)"
  shows "(jsNumber env content = Some n \<longrightarrow>
            setCellContent env e address content
            = (None, partialRun [MatrixVertex i False]
                       (call env (SetMatrixCellValue (MatrixVertex i False) address n) e)))
       \<and> (jsNumber env content = None \<longrightarrow>
            setCellContent env e address content = (Some IllegalOperation, e))"
  using assms by (simp add: setCellContent_def Let_def truthy_def)

theorem setCellContent_numeric_matrix_witness:
  "getCell sampleCollaborators \<lparr>sheet = 0, col = 4, row = 0\<rparr> = Some (MatrixVertex 7 False)
   \<and> jsNumber sampleCollaborators ''42'' = Some 42
   \<and> setCellContent sampleCollaborators emptyEngine \<lparr>sheet = 0, col = 4, row = 0\<rparr> ''42''
     = (None, \<lparr>recentlyChanged = [],
               calls = [SetMatrixCellValue (MatrixVertex 7 False) \<lparr>sheet = 0, col = 4, row = 0\<rparr> 42,
                        PartialRun [MatrixVertex 7 False]]\<rparr>)
   \<and> jsNumber sampleCollaborators ''=A1'' = None
   \<and> setCellContent sampleCollaborators emptyEngine \<lparr>sheet = 0, col = 4, row = 0\<rparr> ''=A1''
     = (Some IllegalOperation, emptyEngine)"
proof -
  have g: "getCell sampleCollaborators \<lparr>sheet = 0, col = 4, row = 0\<rparr> = Some (MatrixVertex 7 False)"
    by (simp add: sampleCollaborators_def)
  have n1: "jsNumber sampleCollaborators ''42'' = Some 42"
    and n2: "jsNumber sampleCollaborators ''=A1'' = None"
    by (simp_all add: sampleCollaborators_def)
  have m: "marks sampleCollaborators
      (SetMatrixCellValue (MatrixVertex 7 False) \<lparr>sheet = 0, col = 4, row = 0\<rparr> 42) [] = []"
    by (simp add: sampleCollaborators_def)
  from setCellContent_numeric_matrix[OF g, of "''42''" 42 emptyEngine]
       setCellContent_numeric_matrix[OF g, of "''=A1''" _ emptyEngine] g n1 n2 m
  show ?thesis by (simp add: partialRun_def call_def emptyEngine_def)
qed

text \<open>
  The claim as stated fails: with a string content on a cell of a numeric matrix the
  call does not split the matrix and does not complete normally, it throws.
\<close>

theorem setCellContent_matrix_string_is_illegal:
  "setCellContent sampleCollaborators emptyEngine \<lparr>sheet = 0, col = 4, row = 0\<rparr> ''abc''
     = (Some IllegalOperation, emptyEngine)
   \<and> getCell sampleCollaborators \<lparr>sheet = 0, col = 4, row = 0\<rparr> = Some (MatrixVertex 7 False)"
  by (simp add: setCellContent_def Let_def sampleCollaborators_def)

text \<open>
  Claim C7. A \<open>moveCells\<close> call whose source or destination rectangle overlaps a matrix
  vertex fails before anything is changed: the engine it leaves is the engine it found,
  with no call made on a collaborator, so no AST is transformed, no transformation record
  is enqueued and no cell is moved.
\<close>

theorem moveCells_fails_before_any_mutation:
  assumes "matrixInRange env (SpanFrom sourceLeftCorner width height)
           \<or> matrixInRange env (SpanFrom destinationLeftCorner width height)"
  shows "moveCells env e sourceLeftCorner width height destinationLeftCorner = (Some MatrixInRange, e)
         \<and> newCalls e (snd (moveCells env e sourceLeftCorner width height destinationLeftCorner)) = []"
  using assms by (auto simp: moveCells_def Let_def newCalls_def)

theorem moveCells_fails_before_any_mutation_witness:
  "matrixInRange sampleCollaborators (SpanFrom \<lparr>sheet = 0, col = 4, row = 0\<rparr> 2 2)
   \<and> moveCells sampleCollaborators emptyEngine \<lparr>sheet = 0, col = 4, row = 0\<rparr> 2 2
        \<lparr>sheet = 0, col = 0, row = 5\<rparr> = (Some MatrixInRange, emptyEngine)
   \<and> newCalls emptyEngine (snd (moveCells sampleCollaborators emptyEngine
        \<lparr>sheet = 0, col = 4, row = 0\<rparr> 2 2 \<lparr>sheet = 0, col = 0, row = 5\<rparr>)) = []"
proof -
  have h: "matrixInRange sampleCollaborators (SpanFrom \<lparr>sheet = 0, col = 4, row = 0\<rparr> 2 2)"
    by (simp add: sampleCollaborators_def)
  then have "matrixInRange sampleCollaborators (SpanFrom \<lparr>sheet = 0, col = 4, row = 0\<rparr> 2 2)
      \<or> matrixInRange sampleCollaborators (SpanFrom \<lparr>sheet = 0, col = 0, row = 5\<rparr> 2 2)" by simp
  from moveCells_fails_before_any_mutation[OF this, of emptyEngine] h show ?thesis by blast
qed

text \<open>
  Claim C8, as amended. For \<open>addRows\<close>, \<open>removeRows\<close>, \<open>addColumns\<close> and \<open>removeColumns\<close>
  the dependency graph (and for columns the column index) is updated first, then the ASTs
  are transformed, then the transformation record is enqueued in the lazy transform
  service. For \<open>moveCells\<close> on rectangles free of matrices the order is the other one: the
  ASTs are transformed, the record is enqueued, and only then are the cells moved in the
  dependency graph.
\<close>

theorem structural_operations_call_order:
  "take 3 (newCalls e (addRows env e s r n))
     = (let sp = RowsSpanFromNumberOfRows s r (case n of None \<Rightarrow> 1 | Some k \<Rightarrow> k)
        in [GraphAddRows sp, AddRowsTransform sp, AddAddRowsTransformation sp])
   \<and> take 3 (newCalls e (removeRows env e s r n))
     = (let sp = RowsSpan s r (case n of None \<Rightarrow> r | Some k \<Rightarrow> k)
        in [GraphRemoveRows sp, RemoveRowsTransform sp, AddRemoveRowsTransformation sp])
   \<and> take 4 (newCalls e (addColumns env e s c n))
     = (let sp = ColumnsSpanFromNumberOfColumns s c (case n of None \<Rightarrow> 1 | Some k \<Rightarrow> k)
        in [GraphAddColumns sp, ColumnIndexAddColumns sp, AddColumnsTransform sp,
            AddAddColumnsTransformation sp])
   \<and> take 4 (newCalls e (removeColumns env e s c n))
     = (let sp = ColumnsSpan s c (case n of None \<Rightarrow> c | Some k \<Rightarrow> k)
        in [GraphRemoveColumns sp, ColumnIndexRemoveColumns sp, RemoveColumnsTransform sp,
            AddRemoveColumnsTransformation sp])
   \<and> (\<not> matrixInRange env (SpanFrom src w h) \<and> \<not> matrixInRange env (SpanFrom dst w h) \<longrightarrow>
        fst (moveCells env e src w h dst) = None
        \<and> take 3 (newCalls e (snd (moveCells env e src w h dst)))
          = (let toRight = int (col dst) - int (col src); toBottom = int (row dst) - int (row src)
             in [MoveCellsTransform (SpanFrom src w h) toRight toBottom (sheet dst),
                 AddMoveCellsTransformation (SpanFrom src w h) toRight toBottom (sheet dst),
                 GraphMoveCells (SpanFrom src w h) toRight toBottom (sheet dst)]))"
  by (simp add: addRows_def removeRows_def addColumns_def removeColumns_def moveCells_def
      Let_def newCalls_def calls_recompute)


theorem structural_operations_call_order_witness:
  "\<not> matrixInRange sampleCollaborators (SpanFrom \<lparr>sheet = 0, col = 0, row = 0\<rparr> 1 1)
   \<and> \<not> matrixInRange sampleCollaborators (SpanFrom \<lparr>sheet = 0, col = 1, row = 0\<rparr> 1 1)
   \<and> fst (moveCells sampleCollaborators emptyEngine \<lparr>sheet = 0, col = 0, row = 0\<rparr> 1 1
        \<lparr>sheet = 0, col = 1, row = 0\<rparr>) = None
   \<and> take 3 (newCalls emptyEngine (snd (moveCells sampleCollaborators emptyEngine
        \<lparr>sheet = 0, col = 0, row = 0\<rparr> 1 1 \<lparr>sheet = 0, col = 1, row = 0\<rparr>)))
      = [MoveCellsTransform (SpanFrom \<lparr>sheet = 0, col = 0, row = 0\<rparr> 1 1) 1 0 0,
         AddMoveCellsTransformation (SpanFrom \<lparr>sheet = 0, col = 0, row = 0\<rparr> 1 1) 1 0 0,
         GraphMoveCells (SpanFrom \<lparr>sheet = 0, col = 0, row = 0\<rparr> 1 1) 1 0 0]"
proof -
  have h: "\<not> matrixInRange sampleCollaborators (SpanFrom \<lparr>sheet = 0, col = 0, row = 0\<rparr> 1 1)
      \<and> \<not> matrixInRange sampleCollaborators (SpanFrom \<lparr>sheet = 0, col = 1, row = 0\<rparr> 1 1)"
    by (simp add: sampleCollaborators_def)
  from structural_operations_call_order[of emptyEngine sampleCollaborators _ _ _ _
      "\<lparr>sheet = 0, col = 0, row = 0\<rparr>" 1 1 "\<lparr>sheet = 0, col = 1, row = 0\<rparr>"] h
  show ?thesis by (simp add: Let_def)
qed

text \<open>
  The claim as stated fails for \<open>moveCells\<close>: the update of the dependency graph comes
  after the record is enqueued, not before.
\<close>

theorem moveCells_enqueues_before_graph_move:
  "\<not> calledBefore
        (GraphMoveCells (SpanFrom \<lparr>sheet = 0, col = 0, row = 0\<rparr> 1 1) 1 0 0)
        (AddMoveCellsTransformation (SpanFrom \<lparr>sheet = 0, col = 0, row = 0\<rparr> 1 1) 1 0 0)
        (newCalls emptyEngine (snd (moveCells sampleCollaborators emptyEngine
           \<lparr>sheet = 0, col = 0, row = 0\<rparr> 1 1 \<lparr>sheet = 0, col = 1, row = 0\<rparr>)))
   \<and> newCalls emptyEngine (snd (moveCells sampleCollaborators emptyEngine
        \<lparr>sheet = 0, col = 0, row = 0\<rparr> 1 1 \<lparr>sheet = 0, col = 1, row = 0\<rparr>))
      = [MoveCellsTransform (SpanFrom \<lparr>sheet = 0, col = 0, row = 0\<rparr> 1 1) 1 0 0,
         AddMoveCellsTransformation (SpanFrom \<lparr>sheet = 0, col = 0, row = 0\<rparr> 1 1) 1 0 0,
         GraphMoveCells (SpanFrom \<lparr>sheet = 0, col = 0, row = 0\<rparr> 1 1) 1 0 0,
         ClearRecentlyChangedVertices,
         PartialRun []]"
  by (simp add: moveCells_def Let_def newCalls_def calls_recompute calledBefore_def
      sampleCollaborators_def emptyEngine_def call_def)

text \<open>
  Claim C10. Every call of \<open>recomputeIfDependencyGraphNeedsIt\<close> clears the recently-changed
  set and calls \<open>partialRun\<close> of the evaluator with the vertices to recompute, empty or not:
  the guard on the array never skips the run. After the call the recently-changed set is
  empty.
\<close>

theorem recompute_always_clears_and_runs:
  "recentlyChanged (recomputeIfDependencyGraphNeedsIt env e) = []
   \<and> calls (recomputeIfDependencyGraphNeedsIt env e)
       = calls e @ [ClearRecentlyChangedVertices,
                    PartialRun (verticesToRecompute env (recentlyChanged e))]"
  by (simp add: recomputeIfDependencyGraphNeedsIt_def Let_def truthy_def
      clearRecentlyChangedVertices_def partialRun_def)

theorem recompute_always_clears_and_runs_witness:
  "recentlyChanged (recomputeIfDependencyGraphNeedsIt sampleCollaborators emptyEngine) = []
   \<and> calls (recomputeIfDependencyGraphNeedsIt sampleCollaborators emptyEngine)
       = [ClearRecentlyChangedVertices, PartialRun []]"
  using recompute_always_clears_and_runs[of sampleCollaborators emptyEngine]
  by (simp add: sampleCollaborators_def emptyEngine_def)

end
